theory Spec2Isabelle
  imports Complex_Main "HOL-Library.AList"
begin

section \<open>Python values used by logic.py\<close>

text \<open>
  A text that goes through the JSON codec (the answer of the service, a key or a string
  of the report) is a Python \<open>str\<close>: a list of Unicode code points. File names, paths
  and printed lines, which no operation modelled here looks into beyond ASCII, are
  Isabelle strings; \<open>ustr\<close> gives the code points of one.
\<close>

type_synonym pystr = "nat list"

definition ustr :: "string \<Rightarrow> pystr" where
  "ustr s = map of_char s"

text \<open>
  The exceptions that the modelled code raises itself or lets through. \<open>ServiceError\<close>
  stands for whatever exception a call into the remote service (upload, status poll,
  chat) raises, with \<open>str(e)\<close> as its argument; \<open>JSONDecodeError\<close> is the one
  \<open>json.loads\<close> raises, and carries the document it was given (its attribute
  \<open>doc\<close>).
\<close>

datatype pyexc =
    ValueError string
  | ZeroDivisionError
  | JSONDecodeError pystr
  | ServiceError string

text \<open>\<open>int(x)\<close> on a finite float: truncation towards zero.\<close>

definition py_int :: "rat \<Rightarrow> int" where
  "py_int x = (if 0 \<le> x then \<lfloor>x\<rfloor> else \<lceil>x\<rceil>)"

text \<open>
  \<open>range(start, stop, step)\<close> for a positive step, the only kind the source uses
  (\<open>range(0, int(duration), 5)\<close>).
\<close>

function py_range :: "int \<Rightarrow> int \<Rightarrow> int \<Rightarrow> int list" where
  "py_range i stop step =
     (if 0 < step \<and> i < stop then i # py_range (i + step) stop step else [])"
  by pat_completeness auto
termination
  by (relation "measure (\<lambda>(i, stop, step). nat (stop - i))") auto

declare py_range.simps [simp del]

text \<open>\<open>str(n)\<close> for an integer: decimal digits, with a sign for negative numbers.\<close>

function str_nat :: "nat \<Rightarrow> string" where
  "str_nat n =
     (if n < 10 then [''0123456789'' ! n]
      else str_nat (n div 10) @ [''0123456789'' ! (n mod 10)])"
  by pat_completeness auto
termination
  by (relation "measure id") auto

declare str_nat.simps [simp del]

definition str_int :: "int \<Rightarrow> string" where
  "str_int i = (if i < 0 then ''-'' @ str_nat (nat (- i)) else str_nat (nat i))"

text \<open>
  Paths are kept as the strings the source passes around. \<open>path_join d f\<close> is
  \<open>str(Path(d) / f)\<close> for a directory string without a trailing separator;
  \<open>path_name\<close>, \<open>path_suffix\<close> and \<open>parent_name\<close> are \<open>Path(p).name\<close>,
  \<open>Path(p).suffix\<close> and \<open>Path(p).parent.name\<close> for a path string in pathlib's
  normal form (components separated by single slashes).
\<close>

definition path_join :: "string \<Rightarrow> string \<Rightarrow> string" where
  "path_join d f = d @ ''/'' @ f"

definition path_name :: "string \<Rightarrow> string" where
  "path_name p = rev (takeWhile (\<lambda>c. c \<noteq> CHR ''/'') (rev p))"

definition path_parent :: "string \<Rightarrow> string" where
  "path_parent p = rev (drop 1 (dropWhile (\<lambda>c. c \<noteq> CHR ''/'') (rev p)))"

definition parent_name :: "string \<Rightarrow> string" where
  "parent_name p = path_name (path_parent p)"

text \<open>
  pathlib: the suffix starts at the last dot of the name, unless that dot is the first
  or the last character of the name.
\<close>

definition path_suffix :: "string \<Rightarrow> string" where
  "path_suffix p =
     (let name = path_name p;
          ext = rev (takeWhile (\<lambda>c. c \<noteq> CHR ''.'') (rev name))
      in if CHR ''.'' \<in> set name \<and> ext \<noteq> [] \<and> length ext + 1 < length name
         then CHR ''.'' # ext else [])"

text \<open>\<open>str.lower()\<close> on ASCII letters.\<close>

definition lower_char :: "char \<Rightarrow> char" where
  "lower_char c =
     (let n = (of_char c :: nat) in if 65 \<le> n \<and> n \<le> 90 then char_of (n + 32) else c)"

definition str_lower :: "string \<Rightarrow> string" where
  "str_lower s = map lower_char s"

section \<open>process_video\<close>

text \<open>
  The decoder behind \<open>cv2.VideoCapture(video_path)\<close>: whether it opened, the two
  properties the source reads (floats, here exact rationals), and what
  \<open>cap.set(cv2.CAP_PROP_POS_MSEC, ms)\<close> followed by \<open>cap.read()\<close> gives at a
  position: \<open>None\<close> when \<open>ret\<close> is false, the frame otherwise.
\<close>

record 'img capture =
  isOpened :: bool
  prop_fps :: rat
  prop_frame_count :: rat
  read_at :: "int \<Rightarrow> 'img option"

text \<open>
  What a run of \<open>process_video\<close> leaves behind: the dict it returns (insertion
  ordered, as an association list), the \<open>cv2.imwrite\<close> calls it made (path and
  frame), and the positions in milliseconds it asked the decoder to seek to, one per
  sampling attempt.
\<close>

record 'img sampled =
  frame_paths :: "(string \<times> string) list"
  written :: "(string \<times> 'img) list"
  seeks :: "int list"

definition no_samples :: "'img sampled" where
  "no_samples = \<lparr>frame_paths = [], written = [], seeks = []\<rparr>"

text \<open>The body of the loop over \<open>timestamp\<close> (lines 101 to 107).\<close>

definition sample_step :: "'img capture \<Rightarrow> string \<Rightarrow> 'img sampled \<Rightarrow> int \<Rightarrow> 'img sampled" where
  "sample_step cap output_dir acc timestamp =
     (let acc1 = acc\<lparr>seeks := seeks acc @ [timestamp * 1000]\<rparr>
      in case read_at cap (timestamp * 1000) of
           None \<Rightarrow> acc1
         | Some frame \<Rightarrow>
             (let frame_filename = ''frame_'' @ str_int timestamp @ ''.jpg'';
                  frame_path = path_join output_dir frame_filename
              in acc1\<lparr>written := written acc1 @ [(frame_path, frame)],
                      frame_paths :=
                        AList.update (''video_'' @ str_int timestamp @ ''s'') frame_path
                          (frame_paths acc1)\<rparr>))"

text \<open>
  The local \<open>duration = frame_count / fps\<close> of \<open>process_video\<close>, for a
  non-zero \<open>fps\<close>.
\<close>

definition duration_of :: "'img capture \<Rightarrow> rat" where
  "duration_of cap = of_int (py_int (prop_frame_count cap)) / prop_fps cap"

text \<open>
  \<open>process_video(video_path, output_dir)\<close>. Dividing by an \<open>fps\<close> of zero raises
  \<open>ZeroDivisionError\<close> in Python; the rounding of the float quotient is not modelled.
\<close>

definition process_video :: "'img capture \<Rightarrow> string \<Rightarrow> string \<Rightarrow> pyexc + 'img sampled" where
  "process_video cap video_path output_dir =
     (if \<not> isOpened cap then Inl (ValueError (''Could not open video file: '' @ video_path))
      else
        if prop_fps cap = 0 then Inl ZeroDivisionError
        else
          let duration = duration_of cap
          in Inr (foldl (sample_step cap output_dir) no_samples
                    (py_range 0 (py_int duration) 5)))"

section \<open>The remote service and the inspector's state\<close>

text \<open>
  A file object of the service: the fields the source reads (\<open>name\<close>, \<open>uri\<close>,
  \<open>state\<close>).
\<close>

datatype file_state = STATE_UNSPECIFIED | PROCESSING | ACTIVE | FAILED

fun state_name :: "file_state \<Rightarrow> string" where
  "state_name STATE_UNSPECIFIED = ''STATE_UNSPECIFIED''"
| "state_name PROCESSING = ''PROCESSING''"
| "state_name ACTIVE = ''ACTIVE''"
| "state_name FAILED = ''FAILED''"

record remote_file =
  rf_name :: string
  rf_uri :: string
  rf_state :: file_state

text \<open>
  The arguments of \<open>caching.CachedContent.create\<close> (lines 44 to 53), and the cache
  object it returns, stamped with the time of its creation (minutes on the wall clock).
\<close>

record cache_spec =
  cs_model :: string
  cs_display_name :: string
  cs_system_instruction :: string
  cs_contents :: "remote_file list"
  cs_ttl_minutes :: nat

record cached_content =
  cc_spec :: cache_spec
  cc_create_time :: nat

text \<open>
  \<open>genai.GenerativeModel.from_cached_content(cached_content, generation_config)\<close>.
\<close>

record gen_model =
  gm_cached_content :: cached_content
  gm_temperature :: rat
  gm_max_output_tokens :: nat
  gm_response_mime_type :: string

text \<open>
  One element of the \<open>content\<close> list of \<open>generate_report\<close>. \<open>PromptText\<close> is
  \<open>{'text': prompt}\<close> with the fixed prompt of lines 144 to 186, which is not
  reproduced here; \<open>Text t\<close> is \<open>{'text': t}\<close>; \<open>Doc f\<close> is an uploaded file.
\<close>

datatype part = PromptText | Text string | Doc remote_file

text \<open>
  The service, as the calls of the source see it. A call that raises gives \<open>Inl m\<close>,
  \<open>m\<close> being \<open>str(e)\<close> of the exception.
  \<^item> \<open>upload_file path\<close>: \<open>genai.upload_file\<close>.
  \<^item> \<open>get_file k name\<close>: \<open>genai.get_file(name)\<close> at the poll number \<open>k\<close> of a
    wait, that is after \<open>k + 1\<close> sleeps of ten seconds.
  \<^item> \<open>create_cache spec\<close>: \<open>caching.CachedContent.create\<close>; \<open>None\<close> when it
    succeeds.
  \<^item> \<open>send_message now model content message\<close>: \<open>start_chat\<close> with the history
    \<open>content\<close>, \<open>send_message\<close>, and the \<open>text\<close> of the response, for a call made at
    the time \<open>now\<close> (minutes on the wall clock).
\<close>

record remote =
  upload_file :: "string \<Rightarrow> string + remote_file"
  get_file :: "nat \<Rightarrow> string \<Rightarrow> string + remote_file"
  create_cache :: "cache_spec \<Rightarrow> string option"
  send_message :: "nat \<Rightarrow> gen_model \<Rightarrow> part list \<Rightarrow> string \<Rightarrow> string + pystr"

text \<open>
  \<open>self.document_dict\<close>, each dict in insertion order, and the lines printed so far.
  The inspector proper adds \<open>self.cache\<close> and \<open>self.model\<close>, which exist once
  \<open>_initialize_model\<close> has run.
\<close>

record docs =
  building_standards :: "(string \<times> remote_file) list"
  example1 :: "(string \<times> remote_file) list"
  example2 :: "(string \<times> remote_file) list"
  user_data :: "(string \<times> remote_file) list"
  printed :: "string list"

record inspector = docs +
  cache :: cached_content
  model :: gen_model

text \<open>\<open>__init__\<close> before it calls \<open>_initialize_model\<close>.\<close>

definition new_docs :: docs where
  "new_docs = \<lparr>building_standards = [], example1 = [], example2 = [], user_data = [],
     printed = []\<rparr>"

definition SUPPORTED_EXTENSIONS :: "string list" where
  "SUPPORTED_EXTENSIONS = [''.txt'', ''.pdf'', ''.doc'', ''.docx'', ''.jpg'', ''.jpeg'', ''.png'']"

definition supported :: "string \<Rightarrow> bool" where
  "supported file_path \<longleftrightarrow> str_lower (path_suffix file_path) \<in> set SUPPORTED_EXTENSIONS"

definition is_video :: "string \<Rightarrow> bool" where
  "is_video file_path \<longleftrightarrow> str_lower (path_suffix file_path) \<in> set [''.mp4'', ''.mov'', ''.avi'']"

section \<open>_load_standards and _load_examples\<close>

text \<open>
  The loop of \<open>_load_standards\<close> over the paths that \<open>rglob('*')\<close> enumerates, in
  that order. An exception of the upload is caught and printed.
\<close>

fun load_standards :: "remote \<Rightarrow> string list \<Rightarrow> 'a docs_scheme \<Rightarrow> 'a docs_scheme" where
  "load_standards r [] s = s"
| "load_standards r (file_path # rest) s =
     (if supported file_path then
        (case upload_file r file_path of
           Inr uploaded_file \<Rightarrow>
             load_standards r rest
               (s\<lparr>building_standards :=
                    AList.update (path_name file_path) uploaded_file (building_standards s)\<rparr>)
         | Inl e \<Rightarrow>
             load_standards r rest
               (s\<lparr>printed := printed s @
                    [''Error loading standard '' @ path_name file_path @ '': '' @ e]\<rparr>))
      else load_standards r rest s)"

fun load_examples :: "remote \<Rightarrow> string list \<Rightarrow> 'a docs_scheme \<Rightarrow> 'a docs_scheme" where
  "load_examples r [] s = s"
| "load_examples r (file_path # rest) s =
     (if supported file_path then
        (let subfolder = parent_name file_path
         in if subfolder = ''example1'' \<or> subfolder = ''example2'' then
              (case upload_file r file_path of
                 Inr uploaded_file \<Rightarrow>
                   load_examples r rest
                     (if subfolder = ''example1''
                      then s\<lparr>example1 :=
                             AList.update (path_name file_path) uploaded_file (example1 s)\<rparr>
                      else s\<lparr>example2 :=
                             AList.update (path_name file_path) uploaded_file (example2 s)\<rparr>)
               | Inl e \<Rightarrow>
                   load_examples r rest
                     (s\<lparr>printed := printed s @
                          [''Error loading example '' @ path_name file_path @ '': '' @ e]\<rparr>))
            else load_examples r rest s)
      else load_examples r rest s)"

section \<open>_initialize_model\<close>

definition standards_cache_spec :: "'a docs_scheme \<Rightarrow> cache_spec" where
  "standards_cache_spec s =
     \<lparr>cs_model = ''models/gemini-1.5-flash-002'',
      cs_display_name = ''home_inspection_cache'',
      cs_system_instruction =
        ''You are an expert at analysing residential building and producing detailed inspection reports.''
        @ ''Your job is to analyse the user provided media and produce a detailed inspection report based on the reference standards you have access to.'',
      cs_contents = map snd (building_standards s),
      cs_ttl_minutes = 60\<rparr>"

text \<open>
  \<open>_initialize_model\<close>, called once by \<open>__init__\<close> at the time \<open>now\<close>, on the paths
  under the two directories. An exception of \<open>CachedContent.create\<close> is not caught.
\<close>

definition initialize_model ::
  "remote \<Rightarrow> nat \<Rightarrow> string list \<Rightarrow> string list \<Rightarrow> docs \<Rightarrow> pyexc + inspector" where
  "initialize_model r now standards_files examples_files s =
     (let s1 = load_standards r standards_files s;
          s2 = load_examples r examples_files s1;
          spec = standards_cache_spec s2
      in case create_cache r spec of
           Some e \<Rightarrow> Inl (ServiceError e)
         | None \<Rightarrow>
             (let c = \<lparr>cc_spec = spec, cc_create_time = now\<rparr>
              in Inr (docs.extend s2
                   (inspector.fields c
                      \<lparr>gm_cached_content = c, gm_temperature = 1 / 10,
                       gm_max_output_tokens = 8192,
                       gm_response_mime_type = ''application/json''\<rparr>))))"

definition HomeInspector ::
  "remote \<Rightarrow> nat \<Rightarrow> string list \<Rightarrow> string list \<Rightarrow> pyexc + inspector" where
  "HomeInspector r now standards_files examples_files =
     initialize_model r now standards_files examples_files new_docs"

section \<open>upload_user_media and _upload_video\<close>

text \<open>
  The loop of \<open>_upload_video\<close> (lines 131 to 134): while the state is
  \<open>PROCESSING\<close>, print, sleep ten seconds and ask again. \<open>k\<close> counts the polls made
  so far, \<open>out\<close> is the output printed so far. The loop has no other exit, so the
  function is partial: \<open>None\<close> is a wait that never returns.
\<close>

partial_function (option) wait_while_processing ::
  "remote \<Rightarrow> nat \<Rightarrow> remote_file \<Rightarrow> string list \<Rightarrow> ((string + remote_file) \<times> string list) option"
where
  "wait_while_processing r k video_file out =
     (if rf_state video_file = PROCESSING then
        (case get_file r k (rf_name video_file) of
           Inl e \<Rightarrow> Some (Inl e, out @ [''Waiting for video to be processed.''])
         | Inr video_file' \<Rightarrow>
             wait_while_processing r (Suc k) video_file'
               (out @ [''Waiting for video to be processed.'']))
      else Some (Inr video_file, out))"

declare wait_while_processing.simps [code]

text \<open>
  A call that changes the state returns the exception it raised, if any, and the state
  it leaves; \<open>None\<close> outside means that the call does not return.
\<close>

type_synonym 'a outcome = "(pyexc option \<times> 'a) option"

definition upload_video :: "remote \<Rightarrow> string \<Rightarrow> 'a docs_scheme \<Rightarrow> 'a docs_scheme outcome" where
  "upload_video r video_path s =
     (let s1 = s\<lparr>printed := printed s @ [''Uploading video file...'']\<rparr>
      in case upload_file r video_path of
           Inl e \<Rightarrow> Some (Some (ServiceError e), s1)
         | Inr video_file \<Rightarrow>
             (case wait_while_processing r 0 video_file
                     (printed s1 @ [''Completed upload: '' @ rf_uri video_file]) of
                None \<Rightarrow> None
              | Some (Inl e, out) \<Rightarrow> Some (Some (ServiceError e), s1\<lparr>printed := out\<rparr>)
              | Some (Inr video_file', out) \<Rightarrow>
                  if rf_state video_file' = FAILED
                  then Some (Some (ValueError (state_name (rf_state video_file'))),
                             s1\<lparr>printed := out\<rparr>)
                  else Some (None,
                             s1\<lparr>printed := out @
                                   [''Video processing complete: '' @ rf_uri video_file'],
                                 user_data :=
                                   AList.update (path_name video_path) video_file'
                                     (user_data s1)\<rparr>)))"

text \<open>
  \<open>upload_user_media\<close>: the upload of a supported file is inside \<open>try\<close>, the call of
  \<open>_upload_video\<close> is not, so what \<open>_upload_video\<close> raises ends the loop.
\<close>

fun upload_user_media :: "remote \<Rightarrow> string list \<Rightarrow> 'a docs_scheme \<Rightarrow> 'a docs_scheme outcome" where
  "upload_user_media r [] s = Some (None, s)"
| "upload_user_media r (path # rest) s =
     (if supported path then
        (case upload_file r path of
           Inr uploaded_file \<Rightarrow>
             upload_user_media r rest
               (s\<lparr>user_data := AList.update (path_name path) uploaded_file (user_data s)\<rparr>)
         | Inl e \<Rightarrow>
             upload_user_media r rest
               (s\<lparr>printed := printed s @
                    [''Error loading user media '' @ path_name path @ '': '' @ e]\<rparr>))
      else if is_video path then
        (case upload_video r path s of
           None \<Rightarrow> None
         | Some (Some e, s') \<Rightarrow> Some (Some e, s')
         | Some (None, s') \<Rightarrow> upload_user_media r rest s')
      else upload_user_media r rest s)"

section \<open>json.loads and json.dumps\<close>

text \<open>
  The values \<open>json.loads\<close> builds: \<open>None\<close>, \<open>bool\<close>, \<open>int\<close>, \<open>float\<close>,
  \<open>str\<close>, \<open>list\<close> and \<open>dict\<close> (insertion ordered, keys \<open>str\<close>). A float is kept
  as the literal it was read from: its conversion to a double is not modelled.
\<close>

datatype json =
    JNull
  | JBool bool
  | JInt int
  | JFloat pystr
  | JStr pystr
  | JList "json list"
  | JDict "(pystr \<times> json) list"

subsection \<open>The decoder\<close>

text \<open>\<open>WHITESPACE\<close>: space, tab, line feed, carriage return.\<close>

definition is_ws :: "nat \<Rightarrow> bool" where
  "is_ws c \<longleftrightarrow> c = 0x20 \<or> c = 0x09 \<or> c = 0x0A \<or> c = 0x0D"

definition skip_ws :: "pystr \<Rightarrow> pystr" where
  "skip_ws s = dropWhile is_ws s"

definition is_digit :: "nat \<Rightarrow> bool" where
  "is_digit c \<longleftrightarrow> 0x30 \<le> c \<and> c \<le> 0x39"

text \<open>One of \<open>[0-9A-Fa-f]\<close>, and four of them after \<open>\u\<close>.\<close>

definition hex_val :: "nat \<Rightarrow> nat option" where
  "hex_val c =
     (if 0x30 \<le> c \<and> c \<le> 0x39 then Some (c - 0x30)
      else if 0x41 \<le> c \<and> c \<le> 0x46 then Some (c - 0x41 + 10)
      else if 0x61 \<le> c \<and> c \<le> 0x66 then Some (c - 0x61 + 10)
      else None)"

fun decode_uXXXX :: "pystr \<Rightarrow> (nat \<times> pystr) option" where
  "decode_uXXXX (a # b # c # d # rest) =
     (case (hex_val a, hex_val b, hex_val c, hex_val d) of
        (Some x, Some y, Some z, Some w) \<Rightarrow> Some (4096 * x + 256 * y + 16 * z + w, rest)
      | _ \<Rightarrow> None)"
| "decode_uXXXX _ = None"

text \<open>\<open>BACKSLASH\<close>: the character after a backslash that is not \<open>u\<close>.\<close>

definition unescape :: "nat \<Rightarrow> nat option" where
  "unescape e =
     (if e = 0x22 then Some 0x22
      else if e = 0x5C then Some 0x5C
      else if e = 0x2F then Some 0x2F
      else if e = 0x62 then Some 0x08
      else if e = 0x66 then Some 0x0C
      else if e = 0x6E then Some 0x0A
      else if e = 0x72 then Some 0x0D
      else if e = 0x74 then Some 0x09
      else None)"

definition prepend :: "nat \<Rightarrow> (pystr \<times> pystr) option \<Rightarrow> (pystr \<times> pystr) option" where
  "prepend c r = (case r of None \<Rightarrow> None | Some (s, rest) \<Rightarrow> Some (c # s, rest))"

lemma decode_uXXXX_length: "decode_uXXXX s = Some (u, rest) \<Longrightarrow> length s = length rest + 4"
  by (cases s rule: decode_uXXXX.cases) (auto split: option.splits)

text \<open>
  \<open>scanstring\<close> (strict), from the character after the opening quote: the string and
  what follows its closing quote. A high surrogate escape followed by a low surrogate
  escape is one code point (\<open>(uni - 0xd800) << 10 | (uni2 - 0xdc00)\<close>, written with
  \<open>*\<close> and \<open>+\<close>); a control character is refused.
\<close>

function scanstring :: "pystr \<Rightarrow> (pystr \<times> pystr) option" where
  "scanstring [] = None"
| "scanstring (c # cs) =
     (if c = 0x22 then Some ([], cs)
      else if c = 0x5C then
        (case cs of
           [] \<Rightarrow> None
         | e # cs' \<Rightarrow>
             if e = 0x75 then
               (case decode_uXXXX cs' of
                  None \<Rightarrow> None
                | Some (uni, rest) \<Rightarrow>
                    if 0xD800 \<le> uni \<and> uni \<le> 0xDBFF \<and> take 2 rest = [0x5C, 0x75] then
                      (case decode_uXXXX (drop 2 rest) of
                         None \<Rightarrow> None
                       | Some (uni2, rest2) \<Rightarrow>
                           if 0xDC00 \<le> uni2 \<and> uni2 \<le> 0xDFFF
                           then prepend (0x10000 + ((uni - 0xD800) * 1024 + (uni2 - 0xDC00)))
                                  (scanstring rest2)
                           else prepend uni (scanstring rest))
                    else prepend uni (scanstring rest))
             else
               (case unescape e of
                  None \<Rightarrow> None
                | Some ch \<Rightarrow> prepend ch (scanstring cs')))
      else if c < 0x20 then None
      else prepend c (scanstring cs))"
  by pat_completeness auto
termination
  by (relation "measure length") (auto dest!: decode_uXXXX_length)

declare scanstring.simps [simp del]

text \<open>
  \<open>NUMBER_RE\<close>, \<open>(-?(?:0|[1-9]\d*))(\.\d+)?([eE][-+]?\d+)?\<close>, matched at the head of
  the text: the integer part, the fraction, the exponent and the rest.
\<close>

definition match_int :: "pystr \<Rightarrow> (pystr \<times> pystr) option" where
  "match_int s =
     (let sign = (if take 1 s = [0x2D] then [0x2D] else []);
          s1 = drop (length sign) s
      in case s1 of
           [] \<Rightarrow> None
         | d # ds \<Rightarrow>
             if d = 0x30 then Some (sign @ [d], ds)
             else if is_digit d then Some (sign @ d # takeWhile is_digit ds, dropWhile is_digit ds)
             else None)"

definition match_frac :: "pystr \<Rightarrow> pystr \<times> pystr" where
  "match_frac s =
     (case s of
        p # d # ds \<Rightarrow>
          if p = 0x2E \<and> is_digit d then (p # d # takeWhile is_digit ds, dropWhile is_digit ds)
          else ([], s)
      | _ \<Rightarrow> ([], s))"

definition match_exp :: "pystr \<Rightarrow> pystr \<times> pystr" where
  "match_exp s =
     (case s of
        [] \<Rightarrow> ([], s)
      | e # s1 \<Rightarrow>
          if e = 0x65 \<or> e = 0x45 then
            (let sign = (if take 1 s1 = [0x2D] \<or> take 1 s1 = [0x2B] then take 1 s1 else []);
                 s2 = drop (length sign) s1
             in if takeWhile is_digit s2 = [] then ([], s)
                else (e # sign @ takeWhile is_digit s2, dropWhile is_digit s2))
          else ([], s))"

text \<open>\<open>int(integer)\<close> for a match of the integer part.\<close>

definition int_of_digits :: "pystr \<Rightarrow> int" where
  "int_of_digits ds = int (foldl (\<lambda>a c. 10 * a + (c - 0x30)) 0 ds)"

definition int_of_literal :: "pystr \<Rightarrow> int" where
  "int_of_literal s = (if take 1 s = [0x2D] then - int_of_digits (drop 1 s) else int_of_digits s)"

definition match_number :: "pystr \<Rightarrow> (json \<times> pystr) option" where
  "match_number s =
     (case match_int s of
        None \<Rightarrow> None
      | Some (integer, s1) \<Rightarrow>
          (let (frac, s2) = match_frac s1;
               (exp, s3) = match_exp s2
           in if frac = [] \<and> exp = [] then Some (JInt (int_of_literal integer), s3)
              else Some (JFloat (integer @ frac @ exp), s3)))"

text \<open>\<open>dict(pairs)\<close>: a later pair replaces the value of an equal key.\<close>

definition dict_of_pairs :: "(pystr \<times> json) list \<Rightarrow> (pystr \<times> json) list" where
  "dict_of_pairs pairs = foldl (\<lambda>d (k, v). AList.update k v d) [] pairs"

definition starts_with :: "string \<Rightarrow> pystr \<Rightarrow> bool" where
  "starts_with w s \<longleftrightarrow> take (length w) s = ustr w"

text \<open>
  \<open>scan_once\<close> with the loops of \<open>JSONArray\<close> and \<open>JSONObject\<close>. \<open>parse_array\<close>
  starts at a value of the array, \<open>parse_object\<close> just after the opening quote of a
  key. The first argument bounds the number of nested calls; \<open>json_loads\<close> gives it
  a value that no text exhausts.
\<close>

fun scan_once :: "nat \<Rightarrow> pystr \<Rightarrow> (json \<times> pystr) option"
  and parse_array :: "nat \<Rightarrow> pystr \<Rightarrow> (json list \<times> pystr) option"
  and parse_object :: "nat \<Rightarrow> pystr \<Rightarrow> ((pystr \<times> json) list \<times> pystr) option"
where
  "scan_once 0 s = None"
| "scan_once (Suc n) [] = None"
| "scan_once (Suc n) (c # cs) =
     (if c = 0x22 then
        (case scanstring cs of None \<Rightarrow> None | Some (str, rest) \<Rightarrow> Some (JStr str, rest))
      else if c = 0x7B then
        (case skip_ws cs of
           [] \<Rightarrow> None
         | d # ds \<Rightarrow>
             if d = 0x7D then Some (JDict [], ds)
             else if d = 0x22 then
               (case parse_object n ds of
                  None \<Rightarrow> None
                | Some (pairs, rest) \<Rightarrow> Some (JDict (dict_of_pairs pairs), rest))
             else None)
      else if c = 0x5B then
        (case skip_ws cs of
           [] \<Rightarrow> None
         | d # ds \<Rightarrow>
             if d = 0x5D then Some (JList [], ds)
             else
               (case parse_array n (d # ds) of
                  None \<Rightarrow> None
                | Some (values, rest) \<Rightarrow> Some (JList values, rest)))
      else if starts_with ''null'' (c # cs) then Some (JNull, drop 3 cs)
      else if starts_with ''true'' (c # cs) then Some (JBool True, drop 3 cs)
      else if starts_with ''false'' (c # cs) then Some (JBool False, drop 4 cs)
      else
        (case match_number (c # cs) of
           Some r \<Rightarrow> Some r
         | None \<Rightarrow>
             if starts_with ''NaN'' (c # cs) then Some (JFloat (ustr ''NaN''), drop 2 cs)
             else if starts_with ''Infinity'' (c # cs)
             then Some (JFloat (ustr ''Infinity''), drop 7 cs)
             else if starts_with ''-Infinity'' (c # cs)
             then Some (JFloat (ustr ''-Infinity''), drop 8 cs)
             else None))"
| "parse_array 0 s = None"
| "parse_array (Suc n) s =
     (case scan_once n s of
        None \<Rightarrow> None
      | Some (v, rest) \<Rightarrow>
          (case skip_ws rest of
             [] \<Rightarrow> None
           | d # ds \<Rightarrow>
               if d = 0x5D then Some ([v], ds)
               else if d = 0x2C then
                 (case parse_array n (skip_ws ds) of
                    None \<Rightarrow> None
                  | Some (vs, rest') \<Rightarrow> Some (v # vs, rest'))
               else None))"
| "parse_object 0 s = None"
| "parse_object (Suc n) s =
     (case scanstring s of
        None \<Rightarrow> None
      | Some (key, r1) \<Rightarrow>
          (case skip_ws r1 of
             [] \<Rightarrow> None
           | c # r2 \<Rightarrow>
               if c \<noteq> 0x3A then None
               else
                 (case scan_once n (skip_ws r2) of
                    None \<Rightarrow> None
                  | Some (v, r3) \<Rightarrow>
                      (case skip_ws r3 of
                         [] \<Rightarrow> None
                       | d # ds \<Rightarrow>
                           if d = 0x7D then Some ([(key, v)], ds)
                           else if d = 0x2C then
                             (case skip_ws ds of
                                [] \<Rightarrow> None
                              | q # qs \<Rightarrow>
                                  if q = 0x22 then
                                    (case parse_object n qs of
                                       None \<Rightarrow> None
                                     | Some (ps, rest') \<Rightarrow> Some ((key, v) # ps, rest'))
                                  else None)
                           else None))))"

text \<open>
  \<open>json.loads(s)\<close> for a \<open>str\<close>: no byte order mark, one value between optional
  whitespace, nothing after it. \<open>None\<close> is \<open>JSONDecodeError\<close>.
\<close>

definition json_loads :: "pystr \<Rightarrow> json option" where
  "json_loads s =
     (if take 1 s = [0xFEFF] then None
      else
        (case scan_once (2 * length s + 2) (skip_ws s) of
           None \<Rightarrow> None
         | Some (obj, rest) \<Rightarrow> if skip_ws rest = [] then Some obj else None))"

subsection \<open>The encoder\<close>

text \<open>
  \<open>py_encode_basestring_ascii\<close>: the quote, the backslash and everything outside
  \<open>' '\<close> to \<open>'~'\<close> are escaped, a code point above \<open>0xffff\<close> as a surrogate pair
  (\<open>0xd800 | ((n >> 10) & 0x3ff)\<close> and \<open>0xdc00 | (n & 0x3ff)\<close>, written with
  \<open>div\<close>, \<open>mod\<close> and \<open>+\<close>).
\<close>

definition hex_digit :: "nat \<Rightarrow> nat" where
  "hex_digit d = (if d < 10 then 0x30 + d else 0x61 + (d - 10))"

definition u_escape :: "nat \<Rightarrow> pystr" where
  "u_escape n =
     [0x5C, 0x75, hex_digit (n div 4096 mod 16), hex_digit (n div 256 mod 16),
      hex_digit (n div 16 mod 16), hex_digit (n mod 16)]"

definition escape_char :: "nat \<Rightarrow> pystr" where
  "escape_char c =
     (if c = 0x22 then [0x5C, 0x22]
      else if c = 0x5C then [0x5C, 0x5C]
      else if c = 0x0A then [0x5C, 0x6E]
      else if c = 0x0D then [0x5C, 0x72]
      else if c = 0x09 then [0x5C, 0x74]
      else if c = 0x08 then [0x5C, 0x62]
      else if c = 0x0C then [0x5C, 0x66]
      else if 0x20 \<le> c \<and> c \<le> 0x7E then [c]
      else if c < 0x10000 then u_escape c
      else
        (let n = c - 0x10000
         in u_escape (0xD800 + n div 1024 mod 1024) @ u_escape (0xDC00 + n mod 1024)))"

definition encode_basestring_ascii :: "pystr \<Rightarrow> pystr" where
  "encode_basestring_ascii s = [0x22] @ concat (map escape_char s) @ [0x22]"

text \<open>\<open>'\n' + indent * level\<close> for \<open>indent=4\<close>.\<close>

definition newline_indent :: "nat \<Rightarrow> pystr" where
  "newline_indent level = 0x0A # replicate (4 * level) 0x20"

text \<open>
  \<open>_iterencode\<close> with \<open>_iterencode_list\<close> and \<open>_iterencode_dict\<close>, for
  \<open>indent=4\<close>, the separators \<open>','\<close> and \<open>': '\<close> and \<open>ensure_ascii\<close>.
  \<open>floatstr\<close> stands for \<open>float.__repr__\<close>, which is not modelled.
\<close>

function encode :: "(pystr \<Rightarrow> pystr) \<Rightarrow> nat \<Rightarrow> json \<Rightarrow> pystr"
  and encode_list :: "(pystr \<Rightarrow> pystr) \<Rightarrow> nat \<Rightarrow> json \<Rightarrow> json list \<Rightarrow> pystr"
  and encode_dict :: "(pystr \<Rightarrow> pystr) \<Rightarrow> nat \<Rightarrow> pystr \<times> json \<Rightarrow> (pystr \<times> json) list \<Rightarrow> pystr"
where
  "encode floatstr level JNull = ustr ''null''"
| "encode floatstr level (JBool b) = (if b then ustr ''true'' else ustr ''false'')"
| "encode floatstr level (JInt i) = ustr (str_int i)"
| "encode floatstr level (JFloat x) = floatstr x"
| "encode floatstr level (JStr s) = encode_basestring_ascii s"
| "encode floatstr level (JList []) = ustr ''[]''"
| "encode floatstr level (JList (x # xs)) =
     [0x5B] @ newline_indent (Suc level) @ encode_list floatstr (Suc level) x xs
       @ newline_indent level @ [0x5D]"
| "encode floatstr level (JDict []) = ustr ''{}''"
| "encode floatstr level (JDict (p # ps)) =
     [0x7B] @ newline_indent (Suc level) @ encode_dict floatstr (Suc level) p ps
       @ newline_indent level @ [0x7D]"
| "encode_list floatstr level x [] = encode floatstr level x"
| "encode_list floatstr level x (y # ys) =
     encode floatstr level x @ [0x2C] @ newline_indent level @ encode_list floatstr level y ys"
| "encode_dict floatstr level (k, v) [] =
     encode_basestring_ascii k @ [0x3A, 0x20] @ encode floatstr level v"
| "encode_dict floatstr level (k, v) (q # qs) =
     encode_basestring_ascii k @ [0x3A, 0x20] @ encode floatstr level v
       @ [0x2C] @ newline_indent level @ encode_dict floatstr level q qs"
  by pat_completeness auto
termination
  by (relation "measure (\<lambda>a. case a of
          Inl (f, l, v) \<Rightarrow> 2 * size v
        | Inr (Inl (f, l, x, xs)) \<Rightarrow> 2 * (size x + size_list size xs) + 1
        | Inr (Inr (f, l, p, ps)) \<Rightarrow>
            2 * (size_prod (\<lambda>k. 0) size p + size_list (size_prod (\<lambda>k. 0) size) ps) + 1)")
     auto

text \<open>\<open>json.dumps(obj, indent=4)\<close>, as app.py calls it.\<close>

definition json_dumps :: "(pystr \<Rightarrow> pystr) \<Rightarrow> json \<Rightarrow> pystr" where
  "json_dumps floatstr obj = encode floatstr 0 obj"


section \<open>generate_report\<close>

text \<open>The \<open>content\<close> list: the prompt, then a label and the file for every user document.\<close>

definition report_content :: "'a docs_scheme \<Rightarrow> part list" where
  "report_content s =
     [PromptText, Text ''User provided media:'']
       @ concat (map (\<lambda>(name, doc). [Text (''User Document: '' @ name), Doc doc]) (user_data s))"

definition report_message :: string where
  "report_message =
     ''Please generate a detailed building report. ''
     @ ''Please provide a detailed answer with elaboration on the report and reference material.''"

text \<open>
  \<open>generate_report\<close>, called at the time \<open>now\<close>: one chat with \<open>self.model\<close>, and
  \<open>json.loads\<close> of the text of the answer. Nothing else is done with the answer.
\<close>

definition generate_report :: "remote \<Rightarrow> nat \<Rightarrow> inspector \<Rightarrow> pyexc + json" where
  "generate_report r now s =
     (case send_message r now (model s) (report_content s) report_message of
        Inl e \<Rightarrow> Inl (ServiceError e)
      | Inr response_text \<Rightarrow>
          (case json_loads response_text of
             None \<Rightarrow> Inl (JSONDecodeError response_text)
           | Some report \<Rightarrow> Inr report))"


section \<open>Auxiliary definitions and concrete inputs\<close>






definition cap_zero :: "int capture" where
  "cap_zero = \<lparr>isOpened = True, prop_fps = 30, prop_frame_count = 0, read_at = Some\<rparr>"

definition cap_unopened :: "int capture" where
  "cap_unopened =
     \<lparr>isOpened = False, prop_fps = 0, prop_frame_count = 0, read_at = (\<lambda>ms. None)\<rparr>"


text \<open>
  For a list of paths in the order of their enumeration: the entries that the uploads
  which succeed produce (file name and uploaded file), and the lines that the uploads
  which fail make \<open>_load_standards\<close> print.
\<close>

definition uploads :: "remote \<Rightarrow> string list \<Rightarrow> (string \<times> remote_file) list" where
  "uploads r fs =
     concat (map (\<lambda>p. if supported p
                         then (case upload_file r p of Inr f \<Rightarrow> [(path_name p, f)] | Inl e \<Rightarrow> [])
                         else []) fs)"

definition standard_errors :: "remote \<Rightarrow> string list \<Rightarrow> string list" where
  "standard_errors r fs =
     concat (map (\<lambda>p. if supported p
                         then (case upload_file r p of
                                 Inr f \<Rightarrow> []
                               | Inl e \<Rightarrow> [''Error loading standard '' @ path_name p @ '': '' @ e])
                         else []) fs)"

text \<open>The line printed at each round of the wait.\<close>

definition waiting :: string where
  "waiting = ''Waiting for video to be processed.''"

text \<open>
  Two states that have printed the same and whose \<open>user_data\<close> agree on every key
  outside \<open>A\<close>.
\<close>

definition agree_off :: "string set \<Rightarrow> 'a docs_scheme \<Rightarrow> 'a docs_scheme \<Rightarrow> bool" where
  "agree_off A s t \<longleftrightarrow>
     printed s = printed t \<and> (\<forall>k. k \<notin> A \<longrightarrow> map_of (user_data s) k = map_of (user_data t) k)"

text \<open>
  Services for the examples. Every one answers an upload with a file named after the
  path; they differ in what becomes of a video.
  \<^item> \<open>r_ok\<close>: a video is \<open>PROCESSING\<close> when uploaded and at the polls 0 and 1,
    \<open>ACTIVE\<close> from the poll 2 on; the upload of a path whose name is \<open>bad.pdf\<close>
    fails.
  \<^item> \<open>r_failed\<close>: a video is \<open>FAILED\<close> as soon as it is uploaded.
  \<^item> \<open>r_stuck\<close>: a video is \<open>PROCESSING\<close> at the upload and at every poll.
  For all of them creating the cache succeeds and the chat answers with the text given.
\<close>

definition file_of :: "string \<Rightarrow> file_state \<Rightarrow> remote_file" where
  "file_of path st = \<lparr>rf_name = ''files/'' @ path, rf_uri = ''https://files/'' @ path, rf_state = st\<rparr>"

definition poll_of :: "string \<Rightarrow> file_state \<Rightarrow> remote_file" where
  "poll_of name st = \<lparr>rf_name = name, rf_uri = ''https://'' @ name, rf_state = st\<rparr>"

definition r_ok :: "pystr \<Rightarrow> remote" where
  "r_ok answer =
     \<lparr>upload_file = (\<lambda>p. if path_name p = ''bad.pdf'' then Inl ''upload failed''
                            else Inr (file_of p (if is_video p then PROCESSING else ACTIVE))),
      get_file = (\<lambda>k name. Inr (poll_of name (if k < 2 then PROCESSING else ACTIVE))),
      create_cache = (\<lambda>spec. None),
      send_message = (\<lambda>now m content message. Inr answer)\<rparr>"

definition r_failed :: "pystr \<Rightarrow> remote" where
  "r_failed answer =
     \<lparr>upload_file = (\<lambda>p. Inr (file_of p (if is_video p then FAILED else ACTIVE))),
      get_file = (\<lambda>k name. Inr (poll_of name FAILED)),
      create_cache = (\<lambda>spec. None),
      send_message = (\<lambda>now m content message. Inr answer)\<rparr>"

definition r_stuck :: "pystr \<Rightarrow> remote" where
  "r_stuck answer =
     \<lparr>upload_file = (\<lambda>p. Inr (file_of p (if is_video p then PROCESSING else ACTIVE))),
      get_file = (\<lambda>k name. Inr (poll_of name PROCESSING)),
      create_cache = (\<lambda>spec. None),
      send_message = (\<lambda>now m content message. Inr answer)\<rparr>"

text \<open>
  The files that a wait on \<open>walk.mp4\<close> sees, the uploaded one first: with \<open>r_ok\<close>
  (\<open>ACTIVE\<close> at the third poll) and with \<open>r_stuck\<close>.
\<close>

definition seen_ok :: "nat \<Rightarrow> remote_file" where
  "seen_ok j =
     (if j = 0 then file_of ''walk.mp4'' PROCESSING
      else poll_of ''files/walk.mp4'' (if j \<le> 2 then PROCESSING else ACTIVE))"

definition seen_stuck :: "nat \<Rightarrow> remote_file" where
  "seen_stuck j =
     (if j = 0 then file_of ''walk.mp4'' PROCESSING else poll_of ''files/walk.mp4'' PROCESSING)"

text \<open>Five standards files, two of them with the same name, and one whose upload fails.\<close>

definition five_standards :: "string list" where
  "five_standards =
     [''standards/irc/roof.pdf'', ''standards/nec/roof.pdf'', ''standards/plumbing.pdf'',
      ''standards/wiring.txt'', ''standards/bad.pdf'']"

text \<open>Five standards files with different names, the upload of the last one failing.\<close>

definition five_distinct :: "string list" where
  "five_distinct =
     [''standards/irc/roof.pdf'', ''standards/nec/panel.pdf'', ''standards/plumbing.pdf'',
      ''standards/wiring.txt'', ''standards/bad.pdf'']"





text \<open>
  A service that honours the time to live of the cache it is given: it answers a chat
  made before the cache of the model expires, and refuses one made later.
\<close>

definition r_ttl :: remote where
  "r_ttl =
     \<lparr>upload_file = (\<lambda>p. Inr (file_of p ACTIVE)),
      get_file = (\<lambda>k name. Inr (poll_of name ACTIVE)),
      create_cache = (\<lambda>spec. None),
      send_message = (\<lambda>now m content message.
         if now < cc_create_time (gm_cached_content m)
                    + cs_ttl_minutes (cc_spec (gm_cached_content m))
         then Inr (ustr ''{}'') else Inl ''cached content has expired'')\<rparr>"


text \<open>
  The values for which the round trip through the encoder and the decoder is stated.
  A \<open>str\<close> is well formed when its code points are below \<open>0x110000\<close> and no high
  surrogate is directly followed by a low surrogate (true of every text decoded from
  UTF-8, and of every string the decoder builds from one); a value is well formed when
  its strings and keys are, it holds no float, and the keys of each dict are distinct
  (true of every Python dict).
\<close>

definition is_high :: "nat \<Rightarrow> bool" where
  "is_high c \<longleftrightarrow> 0xD800 \<le> c \<and> c \<le> 0xDBFF"

definition is_low :: "nat \<Rightarrow> bool" where
  "is_low c \<longleftrightarrow> 0xDC00 \<le> c \<and> c \<le> 0xDFFF"

fun wf_str :: "pystr \<Rightarrow> bool" where
  "wf_str [] = True"
| "wf_str [c] = (c < 0x110000)"
| "wf_str (c # d # s) = (c < 0x110000 \<and> \<not> (is_high c \<and> is_low d) \<and> wf_str (d # s))"

fun wf_json :: "json \<Rightarrow> bool"
  and wf_jsons :: "json list \<Rightarrow> bool"
  and wf_pairs :: "(pystr \<times> json) list \<Rightarrow> bool"
where
  "wf_json JNull = True"
| "wf_json (JBool b) = True"
| "wf_json (JInt i) = True"
| "wf_json (JFloat x) = False"
| "wf_json (JStr s) = wf_str s"
| "wf_json (JList xs) = wf_jsons xs"
| "wf_json (JDict ps) = (wf_pairs ps \<and> distinct (map fst ps))"
| "wf_jsons [] = True"
| "wf_jsons (x # xs) = (wf_json x \<and> wf_jsons xs)"
| "wf_pairs [] = True"
| "wf_pairs (p # ps) = (wf_str (fst p) \<and> wf_json (snd p) \<and> wf_pairs ps)"

text \<open>What may follow a value in the output of the encoder: nothing, a comma or a line feed.\<close>

definition follows :: "pystr \<Rightarrow> bool" where
  "follows rest \<longleftrightarrow> (case rest of [] \<Rightarrow> True | c # cs \<Rightarrow> c = 0x2C \<or> c = 0x0A)"

text \<open>A report of the shape the prompt asks for, with one finding.\<close>

definition sample_report :: json where
  "sample_report =
     JDict [(ustr ''detailedInspection'',
             JList [JDict [(ustr ''area'', JStr (ustr ''Roof'')),
                           (ustr ''mediaReference'', JStr (ustr ''frame_5.jpg'')),
                           (ustr ''issuesFound'', JList [JStr [0x31, 0x22, 0x20, 0x67, 0x61, 0x70, 0x20, 0x2013, 0x1F3E0]])]]),
            (ustr ''executiveSummary'',
             JDict [(ustr ''overallCondition'', JStr (ustr ''Fair'')),
                    (ustr ''criticalIssues'', JList [])])]"

text \<open>
  Auxiliary notions of the proof. \<open>pair_free c t\<close>: after the escape of \<open>c\<close>, the
  text \<open>t\<close> does not go on with the escape of a low surrogate that the decoder would
  join to \<open>c\<close>. \<open>value_start c\<close>: a character that can begin a printed value.
\<close>

definition pair_free :: "nat \<Rightarrow> pystr \<Rightarrow> bool" where
  "pair_free c t \<longleftrightarrow>
     (is_high c \<longrightarrow> take 2 t \<noteq> [0x5C, 0x75] \<or>
        (\<exists>u2 r. decode_uXXXX (drop 2 t) = Some (u2, r) \<and> \<not> is_low u2))"

definition value_start :: "nat \<Rightarrow> bool" where
  "value_start c \<longleftrightarrow> \<not> is_ws c \<and> c \<noteq> 0x5D \<and> c \<noteq> 0x7D \<and> c \<noteq> 0xFEFF"

text \<open>
  For the values the decoder builds. A text is clean when it holds code points only and
  no surrogate, as every text decoded from UTF-8 is. \<open>ok_json\<close> is \<open>wf_json\<close>
  without the ban on floats, and \<open>float_free\<close> is the ban.
\<close>

definition clean :: "pystr \<Rightarrow> bool" where
  "clean s \<longleftrightarrow> (\<forall>c \<in> set s. c < 0x110000 \<and> \<not> is_high c \<and> \<not> is_low c)"

fun ok_json :: "json \<Rightarrow> bool"
  and ok_jsons :: "json list \<Rightarrow> bool"
  and ok_pairs :: "(pystr \<times> json) list \<Rightarrow> bool"
where
  "ok_json (JStr s) = wf_str s"
| "ok_json (JList xs) = ok_jsons xs"
| "ok_json (JDict ps) = (ok_pairs ps \<and> distinct (map fst ps))"
| "ok_json v = True"
| "ok_jsons [] = True"
| "ok_jsons (x # xs) = (ok_json x \<and> ok_jsons xs)"
| "ok_pairs [] = True"
| "ok_pairs (p # ps) = (wf_str (fst p) \<and> ok_json (snd p) \<and> ok_pairs ps)"

fun float_free :: "json \<Rightarrow> bool"
  and float_frees :: "json list \<Rightarrow> bool"
  and float_free_pairs :: "(pystr \<times> json) list \<Rightarrow> bool"
where
  "float_free (JFloat x) = False"
| "float_free (JList xs) = float_frees xs"
| "float_free (JDict ps) = float_free_pairs ps"
| "float_free v = True"
| "float_frees [] = True"
| "float_frees (x # xs) = (float_free x \<and> float_frees xs)"
| "float_free_pairs [] = True"
| "float_free_pairs (p # ps) = (float_free (snd p) \<and> float_free_pairs ps)"


section \<open>Properties of process_video\<close>




lemma digit_val_all: "\<forall>d<(10::nat). (of_char (''0123456789'' ! d) :: nat) = 48 + d"
  by (simp add: numeral_eq_Suc All_less_Suc)

lemma digit_val: "d < 10 \<Longrightarrow> (of_char (''0123456789'' ! d) :: nat) = 48 + d"
  using digit_val_all by blast

















text \<open>
  Claim C7, as the code has it. A video that cannot be opened makes \<open>process_video\<close>
  raise (a \<open>ValueError\<close>); an opened video of zero duration, with a non-zero frame
  rate, raises nothing: the call returns the empty frame map, having made no attempt.
\<close>

theorem process_video_failures:
  "(\<not> isOpened cap \<longrightarrow>
      process_video cap video_path output_dir =
        Inl (ValueError (''Could not open video file: '' @ video_path))) \<and>
   (isOpened cap \<and> prop_fps cap \<noteq> 0 \<and> duration_of cap = 0 \<longrightarrow>
      process_video cap video_path output_dir =
        Inr \<lparr>frame_paths = [], written = [], seeks = []\<rparr>)"
proof -
  have "py_range 0 (py_int 0) 5 = []" by (subst py_range.simps) (simp add: py_int_def)
  thus ?thesis by (simp add: process_video_def no_samples_def)
qed

text \<open>The theorem at a file that does not open and at a video with no frame.\<close>

theorem process_video_failures_witness:
  "\<not> isOpened cap_unopened \<and>
   process_video cap_unopened ''walk.mp4'' ''extracted_frames'' =
     Inl (ValueError ''Could not open video file: walk.mp4'') \<and>
   isOpened cap_zero \<and> prop_fps cap_zero \<noteq> 0 \<and> duration_of cap_zero = 0 \<and>
   process_video cap_zero ''walk.mp4'' ''extracted_frames'' =
     Inr \<lparr>frame_paths = [], written = [], seeks = []\<rparr>"
proof -
  have a: "\<not> isOpened cap_unopened" by (simp add: cap_unopened_def)
  have b: "isOpened cap_zero \<and> prop_fps cap_zero \<noteq> 0 \<and> duration_of cap_zero = 0"
    by (simp add: cap_zero_def duration_of_def py_int_def)
  show ?thesis
    using a b process_video_failures[of cap_unopened "''walk.mp4''" "''extracted_frames''"]
      process_video_failures[of cap_zero "''walk.mp4''" "''extracted_frames''"]
    by simp
qed

text \<open>
  Claim C7 as the specification states it fails for a video of zero duration: the call
  returns the empty frame map and raises nothing.
\<close>

theorem zero_duration_counterexample:
  "duration_of cap_zero = 0 \<and>
   process_video cap_zero ''empty.mp4'' ''extracted_frames'' =
     Inr \<lparr>frame_paths = [], written = [], seeks = []\<rparr>"
  by code_simp

section \<open>Properties of the uploads\<close>

subsection \<open>The wait of _upload_video\<close>


lemma wait_returns_aux:
  assumes "\<forall>j<k. rf_state (f (i + j)) = PROCESSING \<and>
                 get_file r (i + j) (rf_name (f (i + j))) = Inr (f (Suc (i + j)))"
    and "rf_state (f (i + k)) \<noteq> PROCESSING"
  shows "wait_while_processing r i (f i) out = Some (Inr (f (i + k)), out @ replicate k waiting)"
  using assms
proof (induction k arbitrary: i out)
  case 0
  thus ?case by (subst wait_while_processing.simps) simp
next
  case (Suc k)
  have p: "rf_state (f i) = PROCESSING" "get_file r i (rf_name (f i)) = Inr (f (Suc i))"
    using Suc.prems(1)[rule_format, of 0] by simp_all
  have "wait_while_processing r (Suc i) (f (Suc i)) (out @ [waiting]) =
        Some (Inr (f (Suc i + k)), (out @ [waiting]) @ replicate k waiting)"
  proof (rule Suc.IH)
    show "\<forall>j<k. rf_state (f (Suc i + j)) = PROCESSING \<and>
                 get_file r (Suc i + j) (rf_name (f (Suc i + j))) = Inr (f (Suc (Suc i + j)))"
    proof (intro allI impI)
      fix j assume "j < k"
      hence "Suc j < Suc k" by simp
      from Suc.prems(1)[rule_format, OF this] show
        "rf_state (f (Suc i + j)) = PROCESSING \<and>
         get_file r (Suc i + j) (rf_name (f (Suc i + j))) = Inr (f (Suc (Suc i + j)))"
        by simp
    qed
    show "rf_state (f (Suc i + k)) \<noteq> PROCESSING" using Suc.prems(2) by simp
  qed
  thus ?case using p
    by (subst wait_while_processing.simps) (simp add: waiting_def replicate_append_same)
qed

lemma wait_never_aux:
  assumes stuck: "\<forall>j. rf_state (f j) = PROCESSING \<and> get_file r j (rf_name (f j)) = Inr (f (Suc j))"
    and ret: "wait_while_processing r' i vf out = Some y"
  shows "\<not> (r' = r \<and> vf = f i)"
proof (rule wait_while_processing.raw_induct
    [where P = "\<lambda>r' i (vf :: remote_file) out y. \<not> (r' = r \<and> vf = f i)", OF _ ret])
  fix w r' i and vf :: remote_file and out y
  assume IH: "\<And>r' i (vf :: remote_file) out y. w r' i vf out = Some y \<Longrightarrow> \<not> (r' = r \<and> vf = f i)"
    and step: "(if rf_state vf = PROCESSING
                then case get_file r' i (rf_name vf) of
                       Inl e \<Rightarrow> Some (Inl e, out @ [''Waiting for video to be processed.''])
                     | Inr video_file' \<Rightarrow>
                         w r' (Suc i) video_file' (out @ [''Waiting for video to be processed.''])
                else Some (Inr vf, out)) = Some y"
  show "\<not> (r' = r \<and> vf = f i)"
  proof
    assume e: "r' = r \<and> vf = f i"
    hence "w r (Suc i) (f (Suc i)) (out @ [''Waiting for video to be processed.'']) = Some y"
      using step stuck by simp
    from IH[OF this] show False by simp
  qed
qed

lemma wait_never:
  assumes "\<forall>j. rf_state (f j) = PROCESSING \<and> get_file r j (rf_name (f j)) = Inr (f (Suc j))"
  shows "wait_while_processing r i (f i) out = None"
proof (cases "wait_while_processing r i (f i) out")
  case (Some y)
  from wait_never_aux[OF assms this] show ?thesis by simp
qed simp

text \<open>
  Claim C5, as the code has it. The loop of \<open>_upload_video\<close> has no bound and no
  \<open>TimeoutError\<close>: \<open>f 0\<close> being the uploaded file and \<open>f (j + 1)\<close> the answer to
  the poll \<open>j\<close>, the wait returns the first file whose state is not \<open>PROCESSING\<close>,
  after as many rounds as it took; and when every poll answers \<open>PROCESSING\<close> the wait
  never returns.
\<close>

theorem wait_is_unbounded:
  "((\<forall>j<k. rf_state (f j) = PROCESSING \<and> get_file r j (rf_name (f j)) = Inr (f (Suc j))) \<and>
    rf_state (f k) \<noteq> PROCESSING \<longrightarrow>
      wait_while_processing r 0 (f 0) out = Some (Inr (f k), out @ replicate k waiting)) \<and>
   ((\<forall>j. rf_state (f j) = PROCESSING \<and> get_file r j (rf_name (f j)) = Inr (f (Suc j))) \<longrightarrow>
      wait_while_processing r 0 (f 0) out = None)"
  using wait_returns_aux[of k f 0 r out] wait_never[of f r 0 out] by simp

subsection \<open>A video that fails\<close>

lemma is_video_not_supported: "is_video p \<Longrightarrow> \<not> supported p"
  by (auto simp: is_video_def supported_def SUPPORTED_EXTENSIONS_def)

lemma upload_user_media_append:
  "upload_user_media r (xs @ ys) s =
     (case upload_user_media r xs s of
        None \<Rightarrow> None
      | Some (Some e, s') \<Rightarrow> Some (Some e, s')
      | Some (None, s') \<Rightarrow> upload_user_media r ys s')"
proof (induction xs arbitrary: s)
  case Nil
  show ?case by simp
next
  case (Cons p xs)
  show ?case
    by (simp add: Cons.IH split: sum.splits option.splits prod.splits)
qed

lemma upload_video_failed:
  assumes "upload_file r p = Inr vf"
    and "wait_while_processing r 0 vf
           (printed s @ [''Uploading video file...'', ''Completed upload: '' @ rf_uri vf]) =
         Some (Inr vf', out)"
    and "rf_state vf' = FAILED"
  shows "upload_video r p s = Some (Some (ValueError ''FAILED''), s\<lparr>printed := out\<rparr>)"
  using assms by (simp add: upload_video_def)

text \<open>
  Claim C4, as the code has it. When the service reports \<open>FAILED\<close> for a video of the
  batch, \<open>_upload_video\<close> raises \<open>ValueError\<close> and \<open>upload_user_media\<close> lets it
  through: the paths after the video are not uploaded, the video gets no entry, and the
  entries made before it stay in \<open>user_data\<close>.
\<close>

theorem failed_video_ends_batch:
  assumes "upload_user_media r before s0 = Some (None, s)"
    and "is_video p"
    and "upload_file r p = Inr vf"
    and "wait_while_processing r 0 vf
           (printed s @ [''Uploading video file...'', ''Completed upload: '' @ rf_uri vf]) =
         Some (Inr vf', out)"
    and "rf_state vf' = FAILED"
  shows "upload_user_media r (before @ p # rest) s0 =
           Some (Some (ValueError ''FAILED''), s\<lparr>printed := out\<rparr>)"
proof -
  have "upload_video r p s = Some (Some (ValueError ''FAILED''), s\<lparr>printed := out\<rparr>)"
    using assms(3-5) by (rule upload_video_failed)
  thus ?thesis
    using assms(1,2) by (simp add: upload_user_media_append is_video_not_supported)
qed

text \<open>The theorem at a batch of a frame, a video that fails and a second frame.\<close>

theorem failed_video_ends_batch_witness:
  "upload_user_media (r_failed []) [''extracted_frames/frame_0.jpg''] new_docs =
     Some (None, new_docs\<lparr>user_data := [(''frame_0.jpg'', file_of ''extracted_frames/frame_0.jpg'' ACTIVE)]\<rparr>) \<and>
   is_video ''walk.mp4'' \<and>
   upload_user_media (r_failed [])
     ([''extracted_frames/frame_0.jpg''] @ ''walk.mp4'' # [''extracted_frames/frame_5.jpg''])
     new_docs =
     Some (Some (ValueError ''FAILED''),
           new_docs\<lparr>user_data := [(''frame_0.jpg'', file_of ''extracted_frames/frame_0.jpg'' ACTIVE)],
                    printed := [''Uploading video file...'',
                                ''Completed upload: https://files/walk.mp4'']\<rparr>)"
proof -
  let ?s = "new_docs\<lparr>user_data := [(''frame_0.jpg'', file_of ''extracted_frames/frame_0.jpg'' ACTIVE)]\<rparr>"
  have a: "upload_user_media (r_failed []) [''extracted_frames/frame_0.jpg''] new_docs =
             Some (None, ?s)" by code_simp
  have b: "is_video ''walk.mp4''" by code_simp
  have c: "upload_file (r_failed []) ''walk.mp4'' = Inr (file_of ''walk.mp4'' FAILED)"
    by code_simp
  have d: "wait_while_processing (r_failed []) 0 (file_of ''walk.mp4'' FAILED)
             (printed ?s @ [''Uploading video file...'',
                            ''Completed upload: '' @ rf_uri (file_of ''walk.mp4'' FAILED)]) =
           Some (Inr (file_of ''walk.mp4'' FAILED),
                 [''Uploading video file...'', ''Completed upload: https://files/walk.mp4''])"
    by code_simp
  have e: "rf_state (file_of ''walk.mp4'' FAILED) = FAILED" by (simp add: file_of_def)
  from failed_video_ends_batch[OF a b c d e, of "[''extracted_frames/frame_5.jpg'']"]
  show ?thesis using a b by (simp add: new_docs_def)
qed

text \<open>
  Claim C4 as the specification states it fails: with the video first, as app.py builds
  the batch, its failure ends the call and neither frame is uploaded, though the upload
  of each would succeed.
\<close>

theorem failed_video_counterexample:
  "upload_user_media (r_failed [])
     [''tmp/walk.mp4'', ''extracted_frames/frame_0.jpg'', ''extracted_frames/frame_5.jpg'']
     new_docs =
     Some (Some (ValueError ''FAILED''),
           new_docs\<lparr>printed := [''Uploading video file...'',
                                ''Completed upload: https://files/tmp/walk.mp4'']\<rparr>) \<and>
   upload_file (r_failed []) ''extracted_frames/frame_0.jpg'' =
     Inr (file_of ''extracted_frames/frame_0.jpg'' ACTIVE) \<and>
   upload_file (r_failed []) ''extracted_frames/frame_5.jpg'' =
     Inr (file_of ''extracted_frames/frame_5.jpg'' ACTIVE)"
  by code_simp

text \<open>
  The theorem at a video that is ready at the third poll, and at one that stays in
  \<open>PROCESSING\<close>.
\<close>

theorem wait_is_unbounded_witness:
  "wait_while_processing (r_ok []) 0 (file_of ''walk.mp4'' PROCESSING) [] =
     Some (Inr (poll_of ''files/walk.mp4'' ACTIVE), [waiting, waiting, waiting]) \<and>
   wait_while_processing (r_stuck []) 0 (file_of ''walk.mp4'' PROCESSING) [] = None"
proof -
  have ok: "(\<forall>j<3. rf_state (seen_ok j) = PROCESSING \<and>
                get_file (r_ok []) j (rf_name (seen_ok j)) = Inr (seen_ok (Suc j))) \<and>
            rf_state (seen_ok 3) \<noteq> PROCESSING"
    by (simp add: All_less_Suc numeral_3_eq_3 seen_ok_def r_ok_def file_of_def poll_of_def)
  have stuck: "\<forall>j. rf_state (seen_stuck j) = PROCESSING \<and>
                get_file (r_stuck []) j (rf_name (seen_stuck j)) = Inr (seen_stuck (Suc j))"
    by (simp add: seen_stuck_def r_stuck_def file_of_def poll_of_def)
  have z: "seen_ok 0 = file_of ''walk.mp4'' PROCESSING" "seen_ok 3 = poll_of ''files/walk.mp4'' ACTIVE"
    "seen_stuck 0 = file_of ''walk.mp4'' PROCESSING"
    by (simp_all add: seen_ok_def seen_stuck_def)
  have r3: "replicate 3 waiting = [waiting, waiting, waiting]" by (simp add: numeral_3_eq_3)
  from wait_is_unbounded[of 3 seen_ok "r_ok []" "[]"] ok
  have 1: "wait_while_processing (r_ok []) 0 (seen_ok 0) [] =
             Some (Inr (seen_ok 3), [] @ replicate 3 waiting)" by blast
  from wait_is_unbounded[of 0 seen_stuck "r_stuck []" "[]"] stuck
  have 2: "wait_while_processing (r_stuck []) 0 (seen_stuck 0) [] = None" by blast
  show ?thesis using 1 2 by (simp add: z r3)
qed

lemma upload_video_stuck:
  "upload_video (r_stuck []) ''walk.mp4'' s = None"
proof -
  have stuck: "\<forall>j. rf_state (seen_stuck j) = PROCESSING \<and>
                get_file (r_stuck []) j (rf_name (seen_stuck j)) = Inr (seen_stuck (Suc j))"
    by (simp add: seen_stuck_def r_stuck_def file_of_def poll_of_def)
  have u: "upload_file (r_stuck []) ''walk.mp4'' = Inr (seen_stuck 0)" by code_simp
  show ?thesis by (simp add: upload_video_def u wait_never[OF stuck])
qed

text \<open>
  Claim C5 as the specification states it fails: for a video whose state remains
  \<open>PROCESSING\<close>, \<open>_upload_video\<close> and \<open>upload_user_media\<close> do not return at all;
  no \<open>TimeoutError\<close> is raised.
\<close>

theorem wait_bounded_counterexample:
  "upload_file (r_stuck []) ''walk.mp4'' = Inr (file_of ''walk.mp4'' PROCESSING) \<and>
   upload_video (r_stuck []) ''walk.mp4'' new_docs = None \<and>
   upload_user_media (r_stuck []) [''walk.mp4''] new_docs = None"
proof -
  have a: "upload_file (r_stuck []) ''walk.mp4'' = Inr (file_of ''walk.mp4'' PROCESSING)"
    by code_simp
  have b: "\<not> supported ''walk.mp4''" "is_video ''walk.mp4''" by code_simp+
  show ?thesis using a b by (simp add: upload_video_stuck)
qed


subsection \<open>_load_standards\<close>

lemma load_standards_append:
  "load_standards r (xs @ ys) s = load_standards r ys (load_standards r xs s)"
  by (induction xs arbitrary: s) (auto split: sum.splits)

lemma load_standards_printed:
  "printed (load_standards r fs s) = printed s @ standard_errors r fs"
  by (induction fs arbitrary: s) (auto simp: standard_errors_def split: sum.splits)

lemma load_standards_dict:
  "building_standards (load_standards r fs s) =
     foldl (\<lambda>d (k, v). AList.update k v d) (building_standards s) (uploads r fs)"
  by (induction fs arbitrary: s) (auto simp: uploads_def split: sum.splits)

lemma load_standards_others:
  "example1 (load_standards r fs s) = example1 s \<and> example2 (load_standards r fs s) = example2 s \<and>
   user_data (load_standards r fs s) = user_data s"
  by (induction fs arbitrary: s) (auto split: sum.splits)

lemma update_fresh: "k \<notin> fst ` set d \<Longrightarrow> AList.update k v d = d @ [(k, v)]"
  by (induction d) auto

lemma foldl_update_distinct:
  "distinct (map fst (d @ es)) \<Longrightarrow> foldl (\<lambda>d (k, v). AList.update k v d) d es = d @ es"
proof (induction es arbitrary: d)
  case Nil
  show ?case by simp
next
  case (Cons e es)
  obtain k v where e: "e = (k, v)" by (cases e)
  have "k \<notin> fst ` set d" using Cons.prems e by auto
  hence u: "AList.update k v d = d @ [(k, v)]" by (rule update_fresh)
  have "distinct (map fst ((d @ [(k, v)]) @ es))" using Cons.prems e by simp
  from Cons.IH[OF this] show ?case using u e by simp
qed

lemma distinct_foldl_update:
  "distinct (map fst d) \<Longrightarrow> distinct (map fst (foldl (\<lambda>d (k, v). AList.update k v d) d es))"
  by (induction es arbitrary: d) (auto simp: distinct_update)

lemma map_of_foldl_update_notin:
  "n \<notin> fst ` set es \<Longrightarrow> map_of (foldl (\<lambda>d (k, v). AList.update k v d) d es) n = map_of d n"
  by (induction es arbitrary: d) (auto simp: update_conv')

text \<open>
  Claim C8, as the code has it. When the files whose upload succeeds have different
  names, \<open>_load_standards\<close>, started on the empty dict, ends with exactly the
  successfully uploaded files, in the order of their enumeration, and has printed one
  line for each upload that failed. It has no way to raise: the model of the loop has
  no error result, every exception of an upload being caught.
\<close>

theorem standards_partial_failure:
  assumes "distinct (map fst (uploads r fs))"
  shows "building_standards (load_standards r fs new_docs) = uploads r fs \<and>
         printed (load_standards r fs new_docs) = standard_errors r fs"
  using assms foldl_update_distinct[of "[]" "uploads r fs"]
  by (simp add: load_standards_dict load_standards_printed new_docs_def)

text \<open>The theorem at five files with different names, one upload failing.\<close>

theorem standards_partial_failure_witness:
  "distinct (map fst (uploads (r_ok []) five_distinct)) \<and>
   building_standards (load_standards (r_ok []) five_distinct new_docs) =
     [(''roof.pdf'', file_of ''standards/irc/roof.pdf'' ACTIVE),
      (''panel.pdf'', file_of ''standards/nec/panel.pdf'' ACTIVE),
      (''plumbing.pdf'', file_of ''standards/plumbing.pdf'' ACTIVE),
      (''wiring.txt'', file_of ''standards/wiring.txt'' ACTIVE)] \<and>
   printed (load_standards (r_ok []) five_distinct new_docs) =
     [''Error loading standard bad.pdf: upload failed'']"
proof -
  have u: "uploads (r_ok []) five_distinct =
     [(''roof.pdf'', file_of ''standards/irc/roof.pdf'' ACTIVE),
      (''panel.pdf'', file_of ''standards/nec/panel.pdf'' ACTIVE),
      (''plumbing.pdf'', file_of ''standards/plumbing.pdf'' ACTIVE),
      (''wiring.txt'', file_of ''standards/wiring.txt'' ACTIVE)]" by code_simp
  have e: "standard_errors (r_ok []) five_distinct =
     [''Error loading standard bad.pdf: upload failed'']" by code_simp
  have d: "distinct (map fst (uploads (r_ok []) five_distinct))" by code_simp
  from standards_partial_failure[OF d] show ?thesis using d u e by simp
qed

text \<open>
  Claim C8 as the specification states it fails for five files of which one upload
  fails and two of the other four have the same name: four uploads succeed, the corpus
  holds three files.
\<close>

theorem standards_partial_failure_counterexample:
  "length five_standards = 5 \<and>
   uploads (r_ok []) five_standards =
     [(''roof.pdf'', file_of ''standards/irc/roof.pdf'' ACTIVE),
      (''roof.pdf'', file_of ''standards/nec/roof.pdf'' ACTIVE),
      (''plumbing.pdf'', file_of ''standards/plumbing.pdf'' ACTIVE),
      (''wiring.txt'', file_of ''standards/wiring.txt'' ACTIVE)] \<and>
   building_standards (load_standards (r_ok []) five_standards new_docs) =
     [(''roof.pdf'', file_of ''standards/nec/roof.pdf'' ACTIVE),
      (''plumbing.pdf'', file_of ''standards/plumbing.pdf'' ACTIVE),
      (''wiring.txt'', file_of ''standards/wiring.txt'' ACTIVE)] \<and>
   printed (load_standards (r_ok []) five_standards new_docs) =
     [''Error loading standard bad.pdf: upload failed'']"
  by code_simp

subsection \<open>Two files with the same name\<close>

lemma uploads_append: "uploads r (xs @ ys) = uploads r xs @ uploads r ys"
  by (simp add: uploads_def)

lemma standard_errors_append:
  "standard_errors r (xs @ ys) = standard_errors r xs @ standard_errors r ys"
  by (simp add: standard_errors_def)

lemma uploads_names: "fst ` set (uploads r fs) \<subseteq> path_name ` set fs"
  by (auto simp: uploads_def split: if_splits sum.splits)

lemma one_entry:
  "distinct (map fst d) \<Longrightarrow> map_of d n = Some v \<Longrightarrow> length (filter (\<lambda>e. fst e = n) d) = 1"
proof (induction d)
  case Nil
  thus ?case by simp
next
  case (Cons e d)
  show ?case
  proof (cases "fst e = n")
    case True
    hence "n \<notin> fst ` set d" using Cons.prems(1) by auto
    hence "filter (\<lambda>e. fst e = n) d = []" by (auto simp: filter_empty_conv)
    thus ?thesis using True by simp
  next
    case False
    hence "map_of d n = Some v" using Cons.prems(2) by (cases e) auto
    thus ?thesis using Cons False by simp
  qed
qed

lemma standards_same_name:
  fixes s :: "'a docs_scheme" and xs ys zs :: "string list"
  assumes "path_name p1 = n" "path_name p2 = n" "supported p1" "supported p2"
    and "upload_file r p1 = Inr f1" "upload_file r p2 = Inr f2"
    and "\<forall>q \<in> set zs. path_name q \<noteq> n"
  defines "s' \<equiv> load_standards r (xs @ p1 # ys @ p2 # zs) s"
  shows "map_of (building_standards s') n = Some f2"
    and "distinct (map fst (building_standards s)) \<Longrightarrow>
           length (filter (\<lambda>e. fst e = n) (building_standards s')) = 1"
    and "printed s' = printed s @ standard_errors r (xs @ ys @ zs)"
proof -
  have z: "n \<notin> fst ` set (uploads r zs)"
  proof
    assume "n \<in> fst ` set (uploads r zs)"
    hence "n \<in> path_name ` set zs" using uploads_names[of r zs] by blast
    thus False using assms(7) by blast
  qed
  have u: "uploads r (xs @ p1 # ys @ p2 # zs) =
             (uploads r xs @ (n, f1) # uploads r ys) @ (n, f2) # uploads r zs"
    using assms(1-6) by (simp add: uploads_def)
  show m: "map_of (building_standards s') n = Some f2"
    unfolding s'_def load_standards_dict u
    by (simp add: map_of_foldl_update_notin[OF z] update_conv')
  show "length (filter (\<lambda>e. fst e = n) (building_standards s')) = 1"
    if "distinct (map fst (building_standards s))"
  proof -
    have "distinct (map fst (building_standards s'))"
      unfolding s'_def load_standards_dict using that by (rule distinct_foldl_update)
    thus ?thesis using m by (rule one_entry)
  qed
  have "standard_errors r [p1] = []" "standard_errors r [p2] = []"
    using assms(3-6) by (simp_all add: standard_errors_def)
  thus "printed s' = printed s @ standard_errors r (xs @ ys @ zs)"
    unfolding s'_def load_standards_printed
    using standard_errors_append[of r "xs" "[p1] @ ys @ [p2] @ zs"]
      standard_errors_append[of r "[p1]" "ys @ [p2] @ zs"]
      standard_errors_append[of r "ys" "[p2] @ zs"]
      standard_errors_append[of r "[p2]" "zs"]
    by (simp add: standard_errors_append)
qed


lemma upload_video_effect:
  assumes "upload_video r p t = Some (e, t')"
  shows "\<exists>out. t' = t\<lparr>printed := out\<rparr> \<or>
           (\<exists>vf. t' = t\<lparr>printed := out, user_data := AList.update (path_name p) vf (user_data t)\<rparr>)"
  using assms
  by (auto simp: upload_video_def Let_def split: sum.splits option.splits prod.splits if_splits)

lemma media_lookup_other:
  assumes "\<forall>q \<in> set zs. path_name q \<noteq> n" and "upload_user_media r zs t = Some (e, t')"
  shows "map_of (user_data t') n = map_of (user_data t) n"
  using assms
proof (induction zs arbitrary: t)
  case Nil
  thus ?case by simp
next
  case (Cons p zs)
  have pn: "path_name p \<noteq> n" using Cons.prems(1) by simp
  have rest: "\<forall>q \<in> set zs. path_name q \<noteq> n" using Cons.prems(1) by simp
  show ?case
  proof (cases "supported p")
    case True
    thus ?thesis using Cons.prems(2) Cons.IH[OF rest] pn
      by (auto simp: update_conv' split: sum.splits)
  next
    case ns: False
    show ?thesis
    proof (cases "is_video p")
      case False
      thus ?thesis using ns Cons.prems(2) Cons.IH[OF rest] by simp
    next
      case True
      show ?thesis
      proof (cases "upload_video r p t")
        case None
        thus ?thesis using ns True Cons.prems(2) by simp
      next
        case (Some y)
        obtain e1 t1 where y: "y = (e1, t1)" by (cases y)
        from upload_video_effect[OF Some[unfolded y]]
        have l: "map_of (user_data t1) n = map_of (user_data t) n"
          using pn by (auto simp: update_conv')
        show ?thesis
        proof (cases e1)
          case None
          hence "upload_user_media r zs t1 = Some (e, t')"
            using ns True Some y Cons.prems(2) by simp
          from Cons.IH[OF rest this] l show ?thesis by simp
        next
          case (Some ex)
          hence "t' = t1" using ns True \<open>upload_video r p t = Some y\<close> y Cons.prems(2) by simp
          thus ?thesis using l by simp
        qed
      qed
    qed
  qed
qed

lemma media_distinct:
  assumes "distinct (map fst (user_data t))" and "upload_user_media r zs t = Some (e, t')"
  shows "distinct (map fst (user_data t'))"
  using assms
proof (induction zs arbitrary: t)
  case Nil
  thus ?case by simp
next
  case (Cons p zs)
  show ?case
  proof (cases "supported p")
    case True
    show ?thesis
    proof (cases "upload_file r p")
      case (Inl x)
      hence "upload_user_media r zs
               (t\<lparr>printed := printed t @
                    [''Error loading user media '' @ path_name p @ '': '' @ x]\<rparr>) = Some (e, t')"
        using True Cons.prems(2) by simp
      from Cons.IH[OF _ this] Cons.prems(1) show ?thesis by simp
    next
      case (Inr f)
      hence "upload_user_media r zs
               (t\<lparr>user_data := AList.update (path_name p) f (user_data t)\<rparr>) = Some (e, t')"
        using True Cons.prems(2) by simp
      from Cons.IH[OF _ this] Cons.prems(1) show ?thesis by (simp add: distinct_update)
    qed
  next
    case ns: False
    show ?thesis
    proof (cases "is_video p")
      case False
      thus ?thesis using ns Cons.prems Cons.IH by simp
    next
      case True
      show ?thesis
      proof (cases "upload_video r p t")
        case None
        thus ?thesis using ns True Cons.prems(2) by simp
      next
        case (Some y)
        obtain e1 t1 where y: "y = (e1, t1)" by (cases y)
        from upload_video_effect[OF Some[unfolded y]]
        have l: "distinct (map fst (user_data t1))"
          using Cons.prems(1) by (auto simp: distinct_update)
        show ?thesis
        proof (cases e1)
          case None
          hence "upload_user_media r zs t1 = Some (e, t')"
            using ns True Some y Cons.prems(2) by simp
          from Cons.IH[OF l this] show ?thesis .
        next
          case (Some ex)
          hence "t' = t1" using ns True \<open>upload_video r p t = Some y\<close> y Cons.prems(2) by simp
          thus ?thesis using l by simp
        qed
      qed
    qed
  qed
qed

lemma agree_off_update:
  "agree_off A s t \<Longrightarrow>
   agree_off A (s\<lparr>user_data := AList.update k v (user_data s)\<rparr>)
               (t\<lparr>user_data := AList.update k v (user_data t)\<rparr>)"
  by (simp add: agree_off_def update_conv')

lemma agree_off_printed:
  "agree_off A s t \<Longrightarrow> agree_off A (s\<lparr>printed := out\<rparr>) (t\<lparr>printed := out\<rparr>)"
  by (simp add: agree_off_def)

lemma upload_video_agree:
  assumes "agree_off A s t"
  shows "rel_option (\<lambda>(e, s') (e', t'). e = e' \<and> agree_off A s' t')
           (upload_video r p s) (upload_video r p t)"
proof -
  have p: "printed s = printed t" using assms by (simp add: agree_off_def)
  show ?thesis
    using agree_off_update[OF agree_off_printed[OF assms]] agree_off_printed[OF assms]
    by (auto simp: upload_video_def p Let_def split: sum.splits option.splits prod.splits)
qed

lemma upload_user_media_agree:
  assumes "agree_off A s t"
  shows "rel_option (\<lambda>(e, s') (e', t'). e = e' \<and> agree_off A s' t')
           (upload_user_media r fs s) (upload_user_media r fs t)"
  using assms
proof (induction fs arbitrary: s t)
  case Nil
  thus ?case by simp
next
  case (Cons p fs)
  have pr: "printed s = printed t" using Cons.prems by (simp add: agree_off_def)
  show ?case
  proof (cases "supported p")
    case True
    show ?thesis
    proof (cases "upload_file r p")
      case (Inl x)
      thus ?thesis using True Cons.IH[OF agree_off_printed[OF Cons.prems]] by (simp add: pr)
    next
      case (Inr f)
      thus ?thesis using True Cons.IH[OF agree_off_update[OF Cons.prems]] by simp
    qed
  next
    case ns: False
    show ?thesis
    proof (cases "is_video p")
      case False
      thus ?thesis using ns Cons.IH[OF Cons.prems] by simp
    next
      case True
      from upload_video_agree[OF Cons.prems, of r p]
      show ?thesis
      proof (cases rule: option.rel_cases)
        case None
        thus ?thesis using ns True by simp
      next
        case (Some x y)
        obtain e1 s1 where x: "x = (e1, s1)" by (cases x)
        obtain e2 t1 where y: "y = (e2, t1)" by (cases y)
        have ee: "e1 = e2" and ag: "agree_off A s1 t1" using Some(3) x y by simp_all
        show ?thesis
        proof (cases e1)
          case None
          thus ?thesis using ns True Some(1,2) x y ee Cons.IH[OF ag] by simp
        next
          case (Some ex)
          thus ?thesis using ns True \<open>upload_video r p s = Some x\<close>
              \<open>upload_video r p t = Some y\<close> x y ee ag by simp
        qed
      qed
    qed
  qed
qed

lemma media_prefix_ok:
  assumes "upload_user_media r (xs @ ys) t = Some (None, t')"
  obtains t1 where "upload_user_media r xs t = Some (None, t1)"
    and "upload_user_media r ys t1 = Some (None, t')"
  using assms unfolding upload_user_media_append
  by (auto split: option.splits prod.splits)

lemma media_same_name:
  fixes t :: "'a docs_scheme"
  assumes "path_name p1 = n" "path_name p2 = n" "supported p1" "supported p2"
    and "upload_file r p1 = Inr f1" "upload_file r p2 = Inr f2"
    and "\<forall>q \<in> set zs. path_name q \<noteq> n"
    and run: "upload_user_media r (xs @ p1 # ys @ p2 # zs) t = Some (None, t')"
  shows "map_of (user_data t') n = Some f2"
    and "distinct (map fst (user_data t)) \<Longrightarrow>
           length (filter (\<lambda>e. fst e = n) (user_data t')) = 1"
    and "\<exists>t''. upload_user_media r (xs @ ys @ p2 # zs) t = Some (None, t'') \<and>
               printed t'' = printed t' \<and> map_of (user_data t'') = map_of (user_data t')"
proof -
  from run obtain t1 where 1: "upload_user_media r xs t = Some (None, t1)"
    and r1: "upload_user_media r (p1 # ys @ p2 # zs) t1 = Some (None, t')"
    by (rule media_prefix_ok)
  let ?t1' = "t1\<lparr>user_data := AList.update n f1 (user_data t1)\<rparr>"
  have "upload_user_media r (ys @ p2 # zs) ?t1' = Some (None, t')"
    using r1 assms(1,3,5) by simp
  then obtain t2' where 2: "upload_user_media r ys ?t1' = Some (None, t2')"
    and r2: "upload_user_media r (p2 # zs) t2' = Some (None, t')"
    by (rule media_prefix_ok)
  let ?t3' = "t2'\<lparr>user_data := AList.update n f2 (user_data t2')\<rparr>"
  have 3: "upload_user_media r zs ?t3' = Some (None, t')"
    using r2 assms(2,4,6) by simp
  from media_lookup_other[OF assms(7) 3]
  show m: "map_of (user_data t') n = Some f2" by (simp add: update_conv')
  show "length (filter (\<lambda>e. fst e = n) (user_data t')) = 1"
    if "distinct (map fst (user_data t))"
  proof -
    have "distinct (map fst (user_data t'))" using that run by (rule media_distinct)
    thus ?thesis using m by (rule one_entry)
  qed
  have a1: "agree_off {n} ?t1' t1" by (simp add: agree_off_def update_conv')
  from upload_user_media_agree[OF a1, of r ys] 2
  obtain t2 where w2: "upload_user_media r ys t1 = Some (None, t2)" and a2: "agree_off {n} t2' t2"
    by (auto simp: option_rel_Some1)
  let ?t3 = "t2\<lparr>user_data := AList.update n f2 (user_data t2)\<rparr>"
  have a3: "agree_off {} ?t3' ?t3" using a2 by (auto simp: agree_off_def update_conv')
  from upload_user_media_agree[OF a3, of r zs] 3
  obtain t'' where w3: "upload_user_media r zs ?t3 = Some (None, t'')" and a4: "agree_off {} t' t''"
    by (auto simp: option_rel_Some1)
  have "upload_user_media r (xs @ ys @ p2 # zs) t = Some (None, t'')"
    using 1 w2 w3 assms(2,4,6) by (simp add: upload_user_media_append)
  moreover have "printed t'' = printed t'" "map_of (user_data t'') = map_of (user_data t')"
    using a4 by (auto simp: agree_off_def)
  ultimately show "\<exists>t''. upload_user_media r (xs @ ys @ p2 # zs) t = Some (None, t'') \<and>
               printed t'' = printed t' \<and> map_of (user_data t'') = map_of (user_data t')"
    by blast
qed

text \<open>
  Claim C10. Two supported files \<open>p1\<close> and \<open>p2\<close> with the same name \<open>n\<close> are
  uploaded with success, \<open>p1\<close> before \<open>p2\<close>, and no path enumerated after \<open>p2\<close>
  has that name. Then \<open>_load_standards\<close> ends with exactly one entry under \<open>n\<close>, the
  file uploaded for \<open>p2\<close>, and has printed nothing but the error lines of the other
  paths. The same holds of \<open>user_data\<close> for a call of \<open>upload_user_media\<close> that
  returns without an exception; moreover the call without \<open>p1\<close> in the batch prints
  the same lines and ends with the same lookups.
\<close>

theorem same_name_replaces:
  fixes s :: "'a docs_scheme"
  assumes "path_name p1 = n" and "path_name p2 = n" and "supported p1" and "supported p2"
    and "upload_file r p1 = Inr f1" and "upload_file r p2 = Inr f2"
    and "\<forall>q \<in> set zs. path_name q \<noteq> n"
    and "distinct (map fst (building_standards s))" and "distinct (map fst (user_data s))"
  shows "(let s' = load_standards r (xs @ p1 # ys @ p2 # zs) s
          in map_of (building_standards s') n = Some f2 \<and>
             length (filter (\<lambda>e. fst e = n) (building_standards s')) = 1 \<and>
             printed s' = printed s @ standard_errors r (xs @ ys @ zs)) \<and>
         (\<forall>s'. upload_user_media r (xs @ p1 # ys @ p2 # zs) s = Some (None, s') \<longrightarrow>
             map_of (user_data s') n = Some f2 \<and>
             length (filter (\<lambda>e. fst e = n) (user_data s')) = 1 \<and>
             (\<exists>s''. upload_user_media r (xs @ ys @ p2 # zs) s = Some (None, s'') \<and>
                    printed s'' = printed s' \<and>
                    map_of (user_data s'') = map_of (user_data s')))"
proof (intro conjI allI impI)
  show "let s' = load_standards r (xs @ p1 # ys @ p2 # zs) s
        in map_of (building_standards s') n = Some f2 \<and>
           length (filter (\<lambda>e. fst e = n) (building_standards s')) = 1 \<and>
           printed s' = printed s @ standard_errors r (xs @ ys @ zs)"
    using standards_same_name[OF assms(1-7), where xs = xs and ys = ys and s = s] assms(8)
    by (simp add: Let_def)
next
  fix s' assume run: "upload_user_media r (xs @ p1 # ys @ p2 # zs) s = Some (None, s')"
  note m = media_same_name[OF assms(1-7) run]
  show "map_of (user_data s') n = Some f2" by (rule m(1))
  show "length (filter (\<lambda>e. fst e = n) (user_data s')) = 1" using m(2) assms(9) by simp
  show "\<exists>s''. upload_user_media r (xs @ ys @ p2 # zs) s = Some (None, s'') \<and>
              printed s'' = printed s' \<and> map_of (user_data s'') = map_of (user_data s')"
    by (rule m(3))
qed

text \<open>The theorem at two files named \<open>roof.pdf\<close>.\<close>

theorem same_name_replaces_witness:
  "path_name ''standards/irc/roof.pdf'' = ''roof.pdf'' \<and>
   path_name ''standards/nec/roof.pdf'' = ''roof.pdf'' \<and>
   supported ''standards/irc/roof.pdf'' \<and> supported ''standards/nec/roof.pdf'' \<and>
   upload_file (r_ok []) ''standards/irc/roof.pdf'' = Inr (file_of ''standards/irc/roof.pdf'' ACTIVE) \<and>
   upload_file (r_ok []) ''standards/nec/roof.pdf'' = Inr (file_of ''standards/nec/roof.pdf'' ACTIVE) \<and>
   map_of (building_standards (load_standards (r_ok [])
      ([] @ ''standards/irc/roof.pdf'' # [''standards/plumbing.pdf''] @ ''standards/nec/roof.pdf''
         # [''standards/bad.pdf'']) new_docs)) ''roof.pdf''
     = Some (file_of ''standards/nec/roof.pdf'' ACTIVE) \<and>
   printed (load_standards (r_ok [])
      ([] @ ''standards/irc/roof.pdf'' # [''standards/plumbing.pdf''] @ ''standards/nec/roof.pdf''
         # [''standards/bad.pdf'']) new_docs)
     = [''Error loading standard bad.pdf: upload failed''] \<and>
   upload_user_media (r_ok [])
      ([] @ ''standards/irc/roof.pdf'' # [''standards/plumbing.pdf''] @ ''standards/nec/roof.pdf''
         # [''standards/bad.pdf'']) new_docs
     = Some (None, new_docs\<lparr>user_data :=
                [(''roof.pdf'', file_of ''standards/nec/roof.pdf'' ACTIVE),
                 (''plumbing.pdf'', file_of ''standards/plumbing.pdf'' ACTIVE)],
              printed := [''Error loading user media bad.pdf: upload failed'']\<rparr>)"
proof -
  let ?p1 = "''standards/irc/roof.pdf''" and ?p2 = "''standards/nec/roof.pdf''"
  let ?ys = "[''standards/plumbing.pdf'']" and ?zs = "[''standards/bad.pdf'']"
  have h: "path_name ?p1 = ''roof.pdf''" "path_name ?p2 = ''roof.pdf''"
    "supported ?p1" "supported ?p2"
    "upload_file (r_ok []) ?p1 = Inr (file_of ?p1 ACTIVE)"
    "upload_file (r_ok []) ?p2 = Inr (file_of ?p2 ACTIVE)"
    by code_simp+
  have z: "\<forall>q \<in> set ?zs. path_name q \<noteq> ''roof.pdf''" by code_simp
  have d: "distinct (map fst (building_standards new_docs))" "distinct (map fst (user_data new_docs))"
    by (simp_all add: new_docs_def)
  have e: "standard_errors (r_ok []) ([] @ ?ys @ ?zs) = [''Error loading standard bad.pdf: upload failed'']"
    by code_simp
  have u: "upload_user_media (r_ok []) ([] @ ?p1 # ?ys @ ?p2 # ?zs) new_docs
     = Some (None, new_docs\<lparr>user_data :=
                [(''roof.pdf'', file_of ?p2 ACTIVE),
                 (''plumbing.pdf'', file_of ''standards/plumbing.pdf'' ACTIVE)],
              printed := [''Error loading user media bad.pdf: upload failed'']\<rparr>)"
    by code_simp
  from same_name_replaces[OF h z d, where xs = "[]" and ys = ?ys]
  have "map_of (building_standards (load_standards (r_ok [])
          ([] @ ?p1 # ?ys @ ?p2 # ?zs) new_docs)) ''roof.pdf'' = Some (file_of ?p2 ACTIVE)"
    and "printed (load_standards (r_ok []) ([] @ ?p1 # ?ys @ ?p2 # ?zs) new_docs) =
           printed new_docs @ standard_errors (r_ok []) ([] @ ?ys @ ?zs)"
    by (simp_all only: Let_def)
  thus ?thesis using h u e by (simp add: new_docs_def)
qed

section \<open>The bound of the decoder\<close>

text \<open>
  Every call of the decoder that succeeds consumes at least one character.
\<close>

lemma skip_ws_length: "length (skip_ws s) \<le> length s"
  by (simp add: skip_ws_def length_dropWhile_le)

lemma prepend_Some: "prepend c r = Some (x, rest) \<Longrightarrow> \<exists>y. r = Some (y, rest)"
  by (auto simp: prepend_def split: option.splits)

lemma prepend_shorter:
  assumes "prepend ch r = Some (x, rest)" and "\<And>y. r = Some (y, rest) \<Longrightarrow> length rest < k"
  shows "length rest < k"
  using assms by (auto simp: prepend_def split: option.splits)

lemma scanstring_shorter: "scanstring s = Some (x, rest) \<Longrightarrow> length rest < length s"
proof (induction s arbitrary: x rule: scanstring.induct)
  case 1
  thus ?case by (simp add: scanstring.simps)
next
  case (2 c cs)
  note prem = "2.prems"[unfolded scanstring.simps(2)[of c cs]]
  show ?case
  proof (cases "c = 0x22")
    case True
    thus ?thesis using prem by simp
  next
    case q: False
    show ?thesis
    proof (cases "c = 0x5C")
      case False
      hence n: "\<not> c < 0x20" and p: "prepend c (scanstring cs) = Some (x, rest)"
        using prem q by (auto split: if_splits)
      from p show ?thesis
        by (rule prepend_shorter) (use "2.IH"(5)[OF q False n] in fastforce)
    next
      case b: True
      then obtain e cs' where cs: "cs = e # cs'" using prem q by (cases cs) auto
      show ?thesis
      proof (cases "e = 0x75")
        case False
        then obtain ch where u: "unescape e = Some ch"
          and p: "prepend ch (scanstring cs') = Some (x, rest)"
          using prem q b cs by (auto split: option.splits)
        from p show ?thesis
          by (rule prepend_shorter) (use "2.IH"(4)[OF q b cs False u] cs in fastforce)
      next
        case u: True
        then obtain uni r1 where d1: "decode_uXXXX cs' = Some (uni, r1)"
          using prem q b cs by (auto split: option.splits)
        have l1: "length cs' = length r1 + 4" using d1 by (rule decode_uXXXX_length)
        show ?thesis
        proof (cases "0xD800 \<le> uni \<and> uni \<le> 0xDBFF \<and> take 2 r1 = [0x5C, 0x75]")
          case False
          hence p: "prepend uni (scanstring r1) = Some (x, rest)"
            using prem q b cs u d1 by (auto split: if_splits)
          from p show ?thesis
            by (rule prepend_shorter)
              (use "2.IH"(3)[OF q b cs u d1 refl False] cs l1 in fastforce)
        next
          case h: True
          then obtain uni2 r2 where d2: "decode_uXXXX (drop 2 r1) = Some (uni2, r2)"
            using prem q b cs u d1 by (auto split: option.splits)
          have l2: "length (drop 2 r1) = length r2 + 4" using d2 by (rule decode_uXXXX_length)
          show ?thesis
          proof (cases "0xDC00 \<le> uni2 \<and> uni2 \<le> 0xDFFF")
            case True
            hence p: "prepend (0x10000 + ((uni - 0xD800) * 1024 + (uni2 - 0xDC00)))
                        (scanstring r2) = Some (x, rest)"
              using prem q b cs u d1 h d2 by simp
            from p show ?thesis
              by (rule prepend_shorter)
                (use "2.IH"(1)[OF q b cs u d1 refl h d2 refl True] cs l1 l2 in fastforce)
          next
            case False
            hence p: "prepend uni (scanstring r1) = Some (x, rest)"
              using prem q b cs u d1 h d2 by (auto split: if_splits)
            from p show ?thesis
              by (rule prepend_shorter)
                (use "2.IH"(2)[OF q b cs u d1 refl h d2 refl False] cs l1 in fastforce)
          qed
        qed
      qed
    qed
  qed
qed



lemma match_int_shorter:
  assumes "match_int s = Some (i, rest)"
  shows "length rest < length s"
proof -
  define sign :: pystr where "sign = (if take 1 s = [0x2D] then [0x2D] else [])"
  define s1 where "s1 = drop (length sign) s"
  have l: "length s1 \<le> length s" by (simp add: s1_def)
  have m: "(case s1 of
              [] \<Rightarrow> None
            | d # ds \<Rightarrow>
                if d = 0x30 then Some (sign @ [d], ds)
                else if is_digit d
                then Some (sign @ d # takeWhile is_digit ds, dropWhile is_digit ds)
                else None) = Some (i, rest)"
    using assms unfolding match_int_def Let_def sign_def s1_def .
  then obtain d ds where c: "s1 = d # ds" by (cases s1) auto
  have "rest = ds \<or> rest = dropWhile is_digit ds"
    using m c by (auto split: if_splits)
  hence "length rest \<le> length ds" by (auto simp: length_dropWhile_le)
  thus ?thesis using c l by simp
qed

lemma match_frac_length: "match_frac s = (f, rest) \<Longrightarrow> length rest \<le> length s"
  by (auto simp: match_frac_def split: list.splits if_splits
      intro: le_trans[OF length_dropWhile_le])

lemma match_exp_length: "match_exp s = (e, rest) \<Longrightarrow> length rest \<le> length s"
  by (auto simp: match_exp_def Let_def split: list.splits if_splits
      intro!: le_trans[OF length_dropWhile_le])

lemma match_number_shorter:
  assumes "match_number s = Some (v, rest)"
  shows "length rest < length s"
proof -
  obtain i s1 where a: "match_int s = Some (i, s1)"
    using assms by (auto simp: match_number_def split: option.splits)
  obtain f s2 where b: "match_frac s1 = (f, s2)" by (cases "match_frac s1")
  obtain e s3 where c: "match_exp s2 = (e, s3)" by (cases "match_exp s2")
  have "rest = s3" using assms a b c by (auto simp: match_number_def split: if_splits)
  thus ?thesis
    using match_int_shorter[OF a] match_frac_length[OF b] match_exp_length[OF c] by simp
qed


lemma skip_ws_Cons: "skip_ws s = d # ds \<Longrightarrow> length ds < length s"
  using skip_ws_length[of s] by simp

lemma consumed:
  "(\<forall>s v rest. scan_once n s = Some (v, rest) \<longrightarrow> length rest < length s) \<and>
   (\<forall>s vs rest. parse_array n s = Some (vs, rest) \<longrightarrow> length rest < length s) \<and>
   (\<forall>s ps rest. parse_object n s = Some (ps, rest) \<longrightarrow> length rest < length s)"
proof (induction n)
  case 0
  show ?case by simp
next
  case (Suc n)
  note so = Suc[THEN conjunct1, rule_format]
  note pa = Suc[THEN conjunct2, THEN conjunct1, rule_format]
  note po = Suc[THEN conjunct2, THEN conjunct2, rule_format]
  have 1: "length rest < length s" if h: "scan_once (Suc n) s = Some (v, rest)" for s v rest
  proof (cases s)
    case Nil
    thus ?thesis using h by simp
  next
    case (Cons c cs)
    consider (str) "c = 0x22" | (obj) "c \<noteq> 0x22" "c = 0x7B" | (arr) "c \<noteq> 0x22" "c \<noteq> 0x7B" "c = 0x5B"
      | (other) "c \<noteq> 0x22" "c \<noteq> 0x7B" "c \<noteq> 0x5B" by blast
    thus ?thesis
    proof cases
      case str
      thus ?thesis using h Cons
        by (auto split: option.splits dest!: scanstring_shorter)
    next
      case obj
      thus ?thesis using h Cons
        by (auto split: option.splits list.splits if_splits dest!: skip_ws_Cons po)
    next
      case arr
      show ?thesis
      proof (cases "skip_ws cs")
        case Nil
        thus ?thesis using h Cons arr by simp
      next
        case (Cons d ds)
        hence l: "length (d # ds) \<le> length cs" using skip_ws_length[of cs] by simp
        show ?thesis
        proof (cases "d = 0x5D")
          case True
          thus ?thesis using h \<open>s = c # cs\<close> arr Cons l by auto
        next
          case False
          have "scan_once (Suc n) s =
                  (case parse_array n (d # ds) of
                     None \<Rightarrow> None
                   | Some (values, rest) \<Rightarrow> Some (JList values, rest))"
            using \<open>s = c # cs\<close> arr Cons False by simp
          then obtain vs where "parse_array n (d # ds) = Some (vs, rest)"
            using h by (auto split: option.splits)
          from pa[OF this] show ?thesis using l \<open>s = c # cs\<close> by simp
        qed
      qed
    next
      case other
      thus ?thesis using h Cons
        by (auto split: option.splits if_splits dest!: match_number_shorter)
    qed
  qed
  have 2: "length rest < length s" if h: "parse_array (Suc n) s = Some (vs, rest)" for s vs rest
  proof -
    obtain v r1 where a: "scan_once n s = Some (v, r1)"
      using h by (auto split: option.splits)
    have l1: "length r1 < length s" using so[OF a] .
    obtain d ds where b: "skip_ws r1 = d # ds"
      using h a by (cases "skip_ws r1") auto
    have l2: "length ds < length r1" using b by (rule skip_ws_Cons)
    show ?thesis
    proof (cases "d = 0x5D")
      case True
      thus ?thesis using h a b l1 l2 by auto
    next
      case False
      then obtain ws where "parse_array n (skip_ws ds) = Some (ws, rest)"
        using h a b by (auto split: option.splits if_splits)
      from pa[OF this] show ?thesis using skip_ws_length[of ds] l1 l2 by simp
    qed
  qed
  have 3: "length rest < length s" if h: "parse_object (Suc n) s = Some (ps, rest)" for s ps rest
  proof -
    obtain key r1 where a: "scanstring s = Some (key, r1)"
      using h by (auto split: option.splits)
    have l1: "length r1 < length s" using a by (rule scanstring_shorter)
    obtain c r2 where b: "skip_ws r1 = c # r2"
      using h a by (cases "skip_ws r1") auto
    have l2: "length r2 < length r1" using b by (rule skip_ws_Cons)
    have c: "c = 0x3A" using h a b by (auto split: if_splits)
    obtain v r3 where d: "scan_once n (skip_ws r2) = Some (v, r3)"
      using h a b c by (auto split: option.splits)
    have l3: "length r3 < length r2" using so[OF d] skip_ws_length[of r2] by simp
    obtain d' ds where e: "skip_ws r3 = d' # ds"
      using h a b c d by (cases "skip_ws r3") auto
    have l4: "length ds < length r3" using e by (rule skip_ws_Cons)
    show ?thesis
    proof (cases "d' = 0x7D")
      case True
      thus ?thesis using h a b c d e l1 l2 l3 l4 by auto
    next
      case False
      then obtain q qs where f: "skip_ws ds = q # qs"
        using h a b c d e by (cases "skip_ws ds") (auto split: if_splits)
      have l5: "length qs < length ds" using f by (rule skip_ws_Cons)
      obtain qs' where "parse_object n qs = Some (qs', rest)"
        using h a b c d e f False by (auto split: option.splits if_splits)
      from po[OF this] show ?thesis using l1 l2 l3 l4 l5 by simp
    qed
  qed
  show ?case using 1 2 3 by blast
qed

text \<open>
  Hence a bound of twice the length of the text (and one or two more) is never
  exhausted: from there on the result does not depend on the bound.
\<close>

lemmas scan_shorter = consumed[THEN conjunct1, rule_format]

lemma fuel_indep:
  "(\<forall>s m. 2 * length s + 1 \<le> n \<and> 2 * length s + 1 \<le> m \<longrightarrow> scan_once n s = scan_once m s) \<and>
   (\<forall>s m. 2 * length s + 2 \<le> n \<and> 2 * length s + 2 \<le> m \<longrightarrow> parse_array n s = parse_array m s) \<and>
   (\<forall>s m. 2 * length s + 2 \<le> n \<and> 2 * length s + 2 \<le> m \<longrightarrow> parse_object n s = parse_object m s)"
proof (induction n)
  case 0
  show ?case by simp
next
  case (Suc n)
  note so = Suc[THEN conjunct1, rule_format, OF conjI]
  note pa = Suc[THEN conjunct2, THEN conjunct1, rule_format, OF conjI]
  note po = Suc[THEN conjunct2, THEN conjunct2, rule_format, OF conjI]
  have 1: "scan_once (Suc n) s = scan_once m s"
    if h: "2 * length s + 1 \<le> Suc n" "2 * length s + 1 \<le> m" for s m
  proof -
    obtain m' where m: "m = Suc m'" using h(2) by (cases m) auto
    show ?thesis
    proof (cases s)
      case Nil
      thus ?thesis using m by simp
    next
      case (Cons c cs)
      show ?thesis
      proof (cases "skip_ws cs")
        case Nil
        thus ?thesis using m Cons by simp
      next
        case sk: (Cons d ds)
        have l: "length ds + 2 \<le> length s" using skip_ws_Cons[OF sk] Cons by simp
        have a: "parse_object n ds = parse_object m' ds"
          by (rule po) (use l h m in simp_all)
        have b: "parse_array n (d # ds) = parse_array m' (d # ds)"
          by (rule pa) (use l h m in simp_all)
        show ?thesis using m Cons sk a b by simp
      qed
    qed
  qed
  have 2: "parse_array (Suc n) s = parse_array m s"
    if h: "2 * length s + 2 \<le> Suc n" "2 * length s + 2 \<le> m" for s m
  proof -
    obtain m' where m: "m = Suc m'" using h(2) by (cases m) auto
    have a: "scan_once n s = scan_once m' s"
      by (rule so) (use h m in simp_all)
    show ?thesis
    proof (cases "scan_once m' s")
      case None
      thus ?thesis using m a by simp
    next
      case (Some y)
      obtain v r1 where y: "y = (v, r1)" by (cases y)
      have l1: "length r1 < length s" using Some y scan_shorter by blast
      show ?thesis
      proof (cases "skip_ws r1")
        case Nil
        thus ?thesis using m a Some y by simp
      next
        case (Cons d ds)
        have l2: "length (skip_ws ds) + 2 \<le> length s"
          using skip_ws_Cons[OF Cons] skip_ws_length[of ds] l1 by simp
        have b: "parse_array n (skip_ws ds) = parse_array m' (skip_ws ds)"
          by (rule pa) (use l2 h m in simp_all)
        show ?thesis using m a Some y Cons b by simp
      qed
    qed
  qed
  have 3: "parse_object (Suc n) s = parse_object m s"
    if h: "2 * length s + 2 \<le> Suc n" "2 * length s + 2 \<le> m" for s m
  proof -
    obtain m' where m: "m = Suc m'" using h(2) by (cases m) auto
    show ?thesis
    proof (cases "scanstring s")
      case None
      thus ?thesis using m by simp
    next
      case (Some y)
      obtain key r1 where y: "y = (key, r1)" by (cases y)
      have l1: "length r1 < length s" using Some y scanstring_shorter by blast
      show ?thesis
      proof (cases "skip_ws r1")
        case Nil
        thus ?thesis using m Some y by simp
      next
        case c1: (Cons c r2)
        have l2: "length (skip_ws r2) + 2 \<le> length s"
          using skip_ws_Cons[OF c1] skip_ws_length[of r2] l1 by simp
        have a: "scan_once n (skip_ws r2) = scan_once m' (skip_ws r2)"
          by (rule so) (use l2 h m in simp_all)
        show ?thesis
        proof (cases "scan_once m' (skip_ws r2)")
          case None
          thus ?thesis using m Some y c1 a by simp
        next
          case s2: (Some z)
          obtain v r3 where z: "z = (v, r3)" by (cases z)
          have l3: "length r3 < length (skip_ws r2)" using s2 z scan_shorter by blast
          show ?thesis
          proof (cases "skip_ws r3")
            case Nil
            thus ?thesis using m Some y c1 a s2 z by simp
          next
            case c3: (Cons d ds)
            show ?thesis
            proof (cases "skip_ws ds")
              case Nil
              thus ?thesis using m Some y c1 a s2 z c3 by simp
            next
              case c4: (Cons q qs)
              have l4: "length qs + 2 \<le> length s"
                using skip_ws_Cons[OF c3] skip_ws_Cons[OF c4] l3 l2 by simp
              have b: "parse_object n qs = parse_object m' qs"
                by (rule po) (use l4 h m in simp_all)
              show ?thesis using m Some y c1 a s2 z c3 c4 b by simp
            qed
          qed
        qed
      qed
    qed
  qed
  show ?case using 1 2 3 by blast
qed

text \<open>
  \<open>json_loads\<close> is the decoder with any bound from \<open>2 * length s + 2\<close> on: where
  it gives \<open>None\<close>, the text is refused, whatever the depth allowed.
\<close>

theorem json_loads_bound:
  assumes "2 * length s + 2 \<le> n"
  shows "json_loads s =
     (if take 1 s = [0xFEFF] then None
      else
        (case scan_once n (skip_ws s) of
           None \<Rightarrow> None
         | Some (obj, rest) \<Rightarrow> if skip_ws rest = [] then Some obj else None))"
proof -
  have "scan_once (2 * length s + 2) (skip_ws s) = scan_once n (skip_ws s)"
    by (rule fuel_indep[THEN conjunct1, rule_format]) (use assms skip_ws_length[of s] in simp)
  thus ?thesis by (simp add: json_loads_def)
qed

section \<open>Properties of generate_report and of the cache\<close>

text \<open>
  Equations that let the simplifier run the decoder on a text given as a literal.
\<close>

lemmas scan_once_numeral =
  scan_once.simps(2,3)[of "pred_numeral k" for k, unfolded numeral_eq_Suc[symmetric]]
  parse_array.simps(2)[of "pred_numeral k" for k, unfolded numeral_eq_Suc[symmetric]]
  parse_object.simps(2)[of "pred_numeral k" for k, unfolded numeral_eq_Suc[symmetric]]

lemmas json_eval = json_loads_def skip_ws_def is_ws_def ustr_def scan_once_numeral
  scanstring.simps prepend_def unescape_def hex_val_def match_number_def match_int_def
  match_frac_def match_exp_def is_digit_def int_of_literal_def int_of_digits_def
  dict_of_pairs_def starts_with_def Let_def




lemma loads_empty_dict: "json_loads (ustr ''{}'') = Some (JDict [])"
  by (simp add: json_eval)

lemma new_inspector:
  "create_cache r (standards_cache_spec new_docs) = None \<Longrightarrow>
   HomeInspector r t0 [] [] =
     Inr (docs.extend new_docs
           (inspector.fields \<lparr>cc_spec = standards_cache_spec new_docs, cc_create_time = t0\<rparr>
              \<lparr>gm_cached_content =
                 \<lparr>cc_spec = standards_cache_spec new_docs, cc_create_time = t0\<rparr>,
               gm_temperature = 1 / 10, gm_max_output_tokens = 8192,
               gm_response_mime_type = ''application/json''\<rparr>))"
  by (simp add: HomeInspector_def initialize_model_def Let_def)




text \<open>No upload touches the fields that \<open>_initialize_model\<close> set.\<close>

lemma load_standards_more: "docs.more (load_standards r fs s) = docs.more s"
  by (induction fs arbitrary: s) (auto split: sum.splits)

lemma load_examples_more: "docs.more (load_examples r fs s) = docs.more s"
  by (induction fs arbitrary: s) (auto simp: Let_def split: sum.splits)

lemma upload_video_more: "upload_video r p s = Some (e, s') \<Longrightarrow> docs.more s' = docs.more s"
  by (auto simp: upload_video_def Let_def split: sum.splits option.splits prod.splits if_splits)

lemma upload_user_media_more:
  "upload_user_media r fs s = Some (e, s') \<Longrightarrow> docs.more s' = docs.more s"
proof (induction fs arbitrary: s)
  case Nil
  thus ?case by simp
next
  case (Cons p fs)
  show ?case
  proof (cases "supported p")
    case True
    thus ?thesis using Cons by (auto split: sum.splits)
  next
    case ns: False
    show ?thesis
    proof (cases "is_video p")
      case False
      thus ?thesis using ns Cons by simp
    next
      case True
      show ?thesis
      proof (cases "upload_video r p s")
        case None
        thus ?thesis using ns True Cons.prems by simp
      next
        case (Some y)
        obtain e1 s1 where y: "y = (e1, s1)" by (cases y)
        have m: "docs.more s1 = docs.more s" using Some y upload_video_more by blast
        show ?thesis
        proof (cases e1)
          case None
          hence "upload_user_media r fs s1 = Some (e, s')" using ns True Some y Cons.prems by simp
          from Cons.IH[OF this] m show ?thesis by simp
        next
          case (Some ex)
          hence "s' = s1" using ns True \<open>upload_video r p s = Some y\<close> y Cons.prems by simp
          thus ?thesis using m by simp
        qed
      qed
    qed
  qed
qed

lemma load_examples_std:
  "building_standards (load_examples r fs s) = building_standards s"
  by (induction fs arbitrary: s) (auto simp: Let_def split: sum.splits)

lemma inspector_fields_more:
  fixes s s' :: inspector
  shows "docs.more s' = docs.more s \<Longrightarrow> cache s' = cache s \<and> model s' = model s"
  by (cases s, cases s') simp

text \<open>
  Claim C6, as the code has it. The cache is created once, by \<open>_initialize_model\<close>,
  with a time to live of 60 minutes and the standards as its contents; the model is
  bound to it. No later call replaces either: after any \<open>upload_user_media\<close>, a
  \<open>generate_report\<close> made at any time \<open>now\<close> sends its request through the model
  of the initialisation, so with the cache created at \<open>t0\<close>. There is no \<open>get()\<close>,
  no check of the expiry and no rebuild.
\<close>

theorem cache_created_once:
  assumes "HomeInspector r t0 standards_files examples_files = Inr insp"
    and "upload_user_media r' media_paths insp = Some (e, insp')"
  shows "cc_create_time (cache insp) = t0 \<and>
         cs_ttl_minutes (cc_spec (cache insp)) = 60 \<and>
         cs_contents (cc_spec (cache insp)) = map snd (building_standards insp) \<and>
         gm_cached_content (model insp) = cache insp \<and>
         cache insp' = cache insp \<and> model insp' = model insp \<and>
         generate_report r'' now insp' =
           (case send_message r'' now (model insp) (report_content insp') report_message of
              Inl e \<Rightarrow> Inl (ServiceError e)
            | Inr response_text \<Rightarrow>
                (case json_loads response_text of
                   None \<Rightarrow> Inl (JSONDecodeError response_text)
                 | Some report \<Rightarrow> Inr report))"
proof -
  have i: "cc_create_time (cache insp) = t0 \<and>
           cs_ttl_minutes (cc_spec (cache insp)) = 60 \<and>
           cs_contents (cc_spec (cache insp)) = map snd (building_standards insp) \<and>
           gm_cached_content (model insp) = cache insp"
    using assms(1)
    by (auto simp: HomeInspector_def initialize_model_def Let_def standards_cache_spec_def
        docs.defs inspector.defs load_examples_std
        split: option.splits)
  have m: "cache insp' = cache insp \<and> model insp' = model insp"
    using upload_user_media_more[OF assms(2)] by (rule inspector_fields_more)
  show ?thesis using i m by (simp add: generate_report_def)
qed


text \<open>
  The theorem at an inspector created at minute 0 with one standards file, after the
  upload of one frame.
\<close>

theorem cache_created_once_witness:
  "HomeInspector r_ttl 0 [''standards/roof.pdf''] [] =
     Inr (docs.extend
           (new_docs\<lparr>building_standards :=
              [(''roof.pdf'', file_of ''standards/roof.pdf'' ACTIVE)]\<rparr>)
           (inspector.fields
              \<lparr>cc_spec = standards_cache_spec
                 (new_docs\<lparr>building_standards :=
                    [(''roof.pdf'', file_of ''standards/roof.pdf'' ACTIVE)]\<rparr>),
               cc_create_time = 0\<rparr>
              \<lparr>gm_cached_content =
                 \<lparr>cc_spec = standards_cache_spec
                    (new_docs\<lparr>building_standards :=
                       [(''roof.pdf'', file_of ''standards/roof.pdf'' ACTIVE)]\<rparr>),
                  cc_create_time = 0\<rparr>,
               gm_temperature = 1 / 10, gm_max_output_tokens = 8192,
               gm_response_mime_type = ''application/json''\<rparr>)) \<and>
   map_option fst (upload_user_media r_ttl [''extracted_frames/frame_0.jpg'']
      (projr (HomeInspector r_ttl 0 [''standards/roof.pdf''] []))) = Some None \<and>
   cc_create_time (cache (snd (the (upload_user_media r_ttl [''extracted_frames/frame_0.jpg'']
      (projr (HomeInspector r_ttl 0 [''standards/roof.pdf''] [])))))) = 0 \<and>
   cs_ttl_minutes (cc_spec (cache (snd (the (upload_user_media r_ttl
      [''extracted_frames/frame_0.jpg'']
      (projr (HomeInspector r_ttl 0 [''standards/roof.pdf''] []))))))) = 60"
proof -
  let ?d = "new_docs\<lparr>building_standards :=
              [(''roof.pdf'', file_of ''standards/roof.pdf'' ACTIVE)]\<rparr>"
  let ?c = "\<lparr>cc_spec = standards_cache_spec ?d, cc_create_time = 0\<rparr>"
  let ?i = "docs.extend ?d
           (inspector.fields ?c
              \<lparr>gm_cached_content = ?c,
               gm_temperature = 1 / 10, gm_max_output_tokens = 8192,
               gm_response_mime_type = ''application/json''\<rparr>)"
  have s: "supported ''standards/roof.pdf''" "supported ''extracted_frames/frame_0.jpg''"
    "path_name ''standards/roof.pdf'' = ''roof.pdf''" by code_simp+
  have h: "HomeInspector r_ttl 0 [''standards/roof.pdf''] [] = Inr ?i"
    by (simp add: HomeInspector_def initialize_model_def r_ttl_def s new_docs_def Let_def)
  have u: "upload_user_media r_ttl [''extracted_frames/frame_0.jpg''] ?i =
             Some (None, ?i\<lparr>user_data := AList.update
               (path_name ''extracted_frames/frame_0.jpg'')
               (file_of ''extracted_frames/frame_0.jpg'' ACTIVE) (user_data ?i)\<rparr>)"
    by (simp add: r_ttl_def s)
  from cache_created_once[OF h u]
  have "cc_create_time (cache ?i) = 0" "cs_ttl_minutes (cc_spec (cache ?i)) = 60"
    by simp_all
  thus ?thesis using h u by (simp add: docs.defs inspector.defs)
qed

text \<open>
  Claim C6 as the specification states it fails after the time to live: for an
  inspector created at minute 0, the report asked at minute 59 and the one asked at
  minute 61 both go out with the cache created at minute 0; a service that honours the
  time to live answers the first and refuses the second. Nothing is rebuilt.
\<close>

theorem cache_refresh_counterexample:
  "cc_create_time (cache (projr (HomeInspector r_ttl 0 [] []))) = 0 \<and>
   cs_ttl_minutes (cc_spec (cache (projr (HomeInspector r_ttl 0 [] [])))) = 60 \<and>
   generate_report r_ttl 59 (projr (HomeInspector r_ttl 0 [] [])) = Inr (JDict []) \<and>
   generate_report r_ttl 61 (projr (HomeInspector r_ttl 0 [] [])) =
     Inl (ServiceError ''cached content has expired'')"
proof -
  have c: "create_cache r_ttl (standards_cache_spec new_docs) = None"
    by (simp add: r_ttl_def)
  show ?thesis
    unfolding new_inspector[OF c]
    by (simp add: generate_report_def r_ttl_def loads_empty_dict docs.defs inspector.defs
        new_docs_def standards_cache_spec_def)
qed

section \<open>The round trip of the structured-data export\<close>

subsection \<open>Strings\<close>

lemma hex_val_digit_all: "\<forall>d<(16::nat). hex_val (hex_digit d) = Some d"
  by (simp add: numeral_eq_Suc All_less_Suc hex_val_def hex_digit_def)

lemma hex_val_digit: "d < 16 \<Longrightarrow> hex_val (hex_digit d) = Some d"
  using hex_val_digit_all by blast

lemma hex4:
  fixes n :: nat
  assumes "n < 65536"
  shows "4096 * (n div 4096 mod 16) + 256 * (n div 256 mod 16) + 16 * (n div 16 mod 16) + n mod 16 = n"
proof -
  have a: "n div 4096 mod 16 = n div 4096" using assms by simp
  have b: "n div 256 = 16 * (n div 4096) + n div 256 mod 16"
    using div_mult_mod_eq[of "n div 256" 16] div_mult2_eq[of n 256 16] by simp
  have c: "n div 16 = 16 * (n div 256) + n div 16 mod 16"
    using div_mult_mod_eq[of "n div 16" 16] div_mult2_eq[of n 16 16] by simp
  have d: "n = 16 * (n div 16) + n mod 16"
    using div_mult_mod_eq[of n 16] by simp
  show ?thesis using a b c d by linarith
qed


lemma hex_digits_lt: "(n::nat) div 4096 mod 16 < 16" "n div 256 mod 16 < 16" "n div 16 mod 16 < 16" "n mod 16 < 16"
  by simp_all

lemma decode_u_escape:
  assumes "n < 65536"
  shows "decode_uXXXX (drop 2 (u_escape n) @ rest) = Some (n, rest)"
  using hex4[OF assms]
  by (simp add: u_escape_def hex_val_digit hex_digits_lt del: mod_less)

lemma u_escape_shape: "\<exists>t. u_escape n = 0x5C # 0x75 # t \<and> drop 2 (u_escape n) = t"
  by (simp add: u_escape_def)


lemma u_escape_cons: "u_escape n = 0x5C # 0x75 # drop 2 (u_escape n)"
  by (simp add: u_escape_def)

lemma scanstring_u:
  "scanstring (u_escape n @ t) =
     (case decode_uXXXX (drop 2 (u_escape n) @ t) of
        None \<Rightarrow> None
      | Some (uni, rest) \<Rightarrow>
          if 0xD800 \<le> uni \<and> uni \<le> 0xDBFF \<and> take 2 rest = [0x5C, 0x75] then
            (case decode_uXXXX (drop 2 rest) of
               None \<Rightarrow> None
             | Some (uni2, rest2) \<Rightarrow>
                 if 0xDC00 \<le> uni2 \<and> uni2 \<le> 0xDFFF
                 then prepend (0x10000 + ((uni - 0xD800) * 1024 + (uni2 - 0xDC00)))
                        (scanstring rest2)
                 else prepend uni (scanstring rest))
          else prepend uni (scanstring rest))"
  by (subst u_escape_cons, subst append_Cons, subst scanstring.simps) simp

lemma scan_escape_bmp:
  assumes "c < 0x10000" and "pair_free c t"
  shows "scanstring (u_escape c @ t) = prepend c (scanstring t)"
proof -
  have d: "decode_uXXXX (drop 2 (u_escape c) @ t) = Some (c, t)"
    using assms(1) by (simp add: decode_u_escape)
  show ?thesis
  proof (cases "is_high c \<and> take 2 t = [0x5C, 0x75]")
    case False
    thus ?thesis unfolding scanstring_u d by (auto simp: is_high_def)
  next
    case True
    then obtain u2 r where u: "decode_uXXXX (drop 2 t) = Some (u2, r)" "\<not> is_low u2"
      using assms(2) by (auto simp: pair_free_def)
    have nl: "\<not> (0xDC00 \<le> u2 \<and> u2 \<le> 0xDFFF)" using u(2) by (simp add: is_low_def)
    have hi: "0xD800 \<le> c \<and> c \<le> 0xDBFF \<and> take 2 t = [0x5C, 0x75]"
      using True by (simp add: is_high_def)
    show ?thesis unfolding scanstring_u d
      by (simp only: option.case prod.case hi u(1) nl simp_thms if_True if_False)
  qed
qed

lemma astral_parts:
  fixes c :: nat
  assumes "0x10000 \<le> c" and "c < 0x110000"
  shows "0xD800 + (c - 0x10000) div 1024 mod 1024 < 0x10000"
    and "0xDC00 + (c - 0x10000) mod 1024 < 0x10000"
    and "is_high (0xD800 + (c - 0x10000) div 1024 mod 1024)"
    and "is_low (0xDC00 + (c - 0x10000) mod 1024)"
    and "0x10000 + ((0xD800 + (c - 0x10000) div 1024 mod 1024 - 0xD800) * 1024
           + (0xDC00 + (c - 0x10000) mod 1024 - 0xDC00)) = c"
proof -
  define n where "n = c - 0x10000"
  have n: "n < 0x100000" "c = 0x10000 + n" using assms by (simp_all add: n_def)
  have q: "n div 1024 < 1024" using n(1) by simp
  hence m: "n div 1024 mod 1024 = n div 1024" by simp
  have r: "n mod 1024 < 1024" by simp
  show "0xD800 + (c - 0x10000) div 1024 mod 1024 < 0x10000"
    unfolding n_def[symmetric] m using q by simp
  show "0xDC00 + (c - 0x10000) mod 1024 < 0x10000"
    unfolding n_def[symmetric] using r by simp
  show "is_high (0xD800 + (c - 0x10000) div 1024 mod 1024)"
    unfolding n_def[symmetric] m is_high_def using q by simp
  show "is_low (0xDC00 + (c - 0x10000) mod 1024)"
    unfolding n_def[symmetric] is_low_def using r by simp
  have "n div 1024 * 1024 + n mod 1024 = n" by simp
  thus "0x10000 + ((0xD800 + (c - 0x10000) div 1024 mod 1024 - 0xD800) * 1024
           + (0xDC00 + (c - 0x10000) mod 1024 - 0xDC00)) = c"
    unfolding n_def[symmetric] m using n(2) by simp
qed

lemma scan_escape_astral:
  assumes "0x10000 \<le> c" and "c < 0x110000"
  shows "scanstring (u_escape (0xD800 + (c - 0x10000) div 1024 mod 1024)
                       @ u_escape (0xDC00 + (c - 0x10000) mod 1024) @ t)
         = prepend c (scanstring t)"
proof -
  let ?H = "0xD800 + (c - 0x10000) div 1024 mod 1024"
  let ?L = "0xDC00 + (c - 0x10000) mod 1024"
  note p = astral_parts[OF assms]
  have d1: "decode_uXXXX (drop 2 (u_escape ?H) @ (u_escape ?L @ t)) = Some (?H, u_escape ?L @ t)"
    using p(1) by (rule decode_u_escape)
  have t2: "take 2 (u_escape ?L @ t) = [0x5C, 0x75]" by (simp add: u_escape_def)
  have d2: "decode_uXXXX (drop 2 (u_escape ?L @ t)) = Some (?L, t)"
    using decode_u_escape[OF p(2), of t] by (simp add: u_escape_def)
  have h: "0xD800 \<le> ?H \<and> ?H \<le> 0xDBFF" using p(3) by (simp add: is_high_def)
  have l: "0xDC00 \<le> ?L \<and> ?L \<le> 0xDFFF" using p(4) by (simp add: is_low_def)
  show ?thesis
    unfolding scanstring_u d1
    by (simp only: option.case prod.case h t2 d2 l p(5) simp_thms if_True)
qed

lemma scan_escape_char:
  assumes "c < 0x110000" and "pair_free c t"
  shows "scanstring (escape_char c @ t) = prepend c (scanstring t)"
proof -
  consider (special) "c = 0x22 \<or> c = 0x5C \<or> c = 0x0A \<or> c = 0x0D \<or> c = 0x09 \<or> c = 0x08 \<or> c = 0x0C"
    | (plain) "c \<noteq> 0x22" "c \<noteq> 0x5C" "0x20 \<le> c" "c \<le> 0x7E"
    | (bmp) "c \<noteq> 0x22" "c \<noteq> 0x5C" "c \<noteq> 0x0A" "c \<noteq> 0x0D" "c \<noteq> 0x09" "c \<noteq> 0x08" "c \<noteq> 0x0C"
        "\<not> (0x20 \<le> c \<and> c \<le> 0x7E)" "c < 0x10000"
    | (astral) "0x10000 \<le> c"
    by linarith
  thus ?thesis
  proof cases
    case special
    thus ?thesis
      by (elim disjE) (simp_all add: escape_char_def scanstring.simps unescape_def)
  next
    case plain
    hence "escape_char c = [c]" by (auto simp: escape_char_def)
    thus ?thesis using plain by (simp add: scanstring.simps)
  next
    case bmp
    hence "escape_char c = u_escape c" by (auto simp: escape_char_def)
    thus ?thesis using scan_escape_bmp[OF bmp(9) assms(2)] by simp
  next
    case astral
    hence "escape_char c = u_escape (0xD800 + (c - 0x10000) div 1024 mod 1024)
                       @ u_escape (0xDC00 + (c - 0x10000) mod 1024)"
      by (simp add: escape_char_def Let_def)
    thus ?thesis using scan_escape_astral[OF astral assms(1), of t] by simp
  qed
qed

lemma wf_str_head: "wf_str (c # s) \<Longrightarrow> c < 0x110000"
  by (cases s) simp_all

lemma wf_str_tail: "wf_str (c # s) \<Longrightarrow> wf_str s"
  by (cases s) simp_all

lemma escape_head:
  assumes "d < 0x110000"
  shows "take 2 (escape_char d @ t) \<noteq> [0x5C, 0x75] \<or>
         (\<exists>u2 r. decode_uXXXX (drop 2 (escape_char d @ t)) = Some (u2, r) \<and>
                  (u2 = d \<or> is_high u2))"
proof -
  consider (special) "d = 0x22 \<or> d = 0x5C \<or> d = 0x0A \<or> d = 0x0D \<or> d = 0x09 \<or> d = 0x08 \<or> d = 0x0C"
    | (plain) "d \<noteq> 0x22" "d \<noteq> 0x5C" "0x20 \<le> d" "d \<le> 0x7E"
    | (bmp) "d \<noteq> 0x22" "d \<noteq> 0x5C" "d \<noteq> 0x0A" "d \<noteq> 0x0D" "d \<noteq> 0x09" "d \<noteq> 0x08" "d \<noteq> 0x0C"
        "\<not> (0x20 \<le> d \<and> d \<le> 0x7E)" "d < 0x10000"
    | (astral) "0x10000 \<le> d"
    by linarith
  thus ?thesis
  proof cases
    case special
    thus ?thesis by (elim disjE) (simp_all add: escape_char_def)
  next
    case plain
    hence "escape_char d = [d]" by (auto simp: escape_char_def)
    thus ?thesis using plain by (cases t) simp_all
  next
    case bmp
    hence e: "escape_char d = u_escape d" by (auto simp: escape_char_def)
    have "decode_uXXXX (drop 2 (u_escape d @ t)) = Some (d, t)"
      using decode_u_escape[OF bmp(9), of t] by (simp add: u_escape_def)
    thus ?thesis unfolding e by blast
  next
    case astral
    let ?H = "0xD800 + (d - 0x10000) div 1024 mod 1024"
    let ?L = "0xDC00 + (d - 0x10000) mod 1024"
    note p = astral_parts[OF astral assms]
    have e: "escape_char d = u_escape ?H @ u_escape ?L" using astral
      by (simp add: escape_char_def Let_def)
    have "decode_uXXXX (drop 2 (u_escape ?H @ (u_escape ?L @ t))) = Some (?H, u_escape ?L @ t)"
      using decode_u_escape[OF p(1), of "u_escape ?L @ t"] by (simp add: u_escape_def)
    thus ?thesis unfolding e using p(3) by auto
  qed
qed

lemma high_not_low: "is_high u \<Longrightarrow> \<not> is_low u"
  by (simp add: is_high_def is_low_def)

lemma scanstring_escaped:
  "wf_str s \<Longrightarrow> scanstring (concat (map escape_char s) @ 0x22 # rest) = Some (s, rest)"
proof (induction s rule: wf_str.induct)
  case 1
  show ?case by (simp add: scanstring.simps)
next
  case (2 c)
  have "pair_free c (0x22 # rest)" by (simp add: pair_free_def)
  from scan_escape_char[OF _ this] 2 show ?case
    by (simp add: scanstring.simps prepend_def)
next
  case (3 c d s)
  let ?t = "concat (map escape_char (d # s)) @ 0x22 # rest"
  have d: "d < 0x110000" using 3(2) wf_str_head[of d s] by simp
  have np: "\<not> (is_high c \<and> is_low d)" and c: "c < 0x110000" and w: "wf_str (d # s)"
    using 3(2) by simp_all
  have pf: "pair_free c ?t"
  proof -
    have t: "?t = escape_char d @ (concat (map escape_char s) @ 0x22 # rest)" by simp
    from escape_head[OF d, of "concat (map escape_char s) @ 0x22 # rest"]
    show ?thesis unfolding pair_free_def t using np high_not_low by blast
  qed
  have "scanstring (escape_char c @ ?t) = prepend c (scanstring ?t)"
    using c pf by (rule scan_escape_char)
  thus ?case using 3(1)[OF w] by (simp add: prepend_def)
qed

lemma scan_once_string:
  "wf_str s \<Longrightarrow> scan_once (Suc n) (encode_basestring_ascii s @ rest) = Some (JStr s, rest)"
  by (simp add: encode_basestring_ascii_def scanstring_escaped)

subsection \<open>Integers and constants\<close>

lemma ustr_str_nat_small: "n < 10 \<Longrightarrow> ustr (str_nat n) = [48 + n]"
  by (subst str_nat.simps) (simp add: ustr_def digit_val)

lemma ustr_str_nat_big:
  "\<not> n < 10 \<Longrightarrow> ustr (str_nat n) = ustr (str_nat (n div 10)) @ [48 + n mod 10]"
  by (subst str_nat.simps) (simp add: ustr_def digit_val)

lemma str_nat_digits: "\<forall>c \<in> set (ustr (str_nat n)). is_digit c"
proof (induction n rule: str_nat.induct)
  case (1 n)
  show ?case
  proof (cases "n < 10")
    case True
    thus ?thesis by (simp add: ustr_str_nat_small is_digit_def)
  next
    case False
    have "n mod 10 < 10" by simp
    hence "is_digit (48 + n mod 10)" unfolding is_digit_def by linarith
    thus ?thesis using False 1 by (simp add: ustr_str_nat_big)
  qed
qed

lemma str_nat_nonempty: "ustr (str_nat n) \<noteq> []"
  by (cases "n < 10") (simp_all add: ustr_str_nat_small ustr_str_nat_big)

lemma str_nat_head: "0 < n \<Longrightarrow> hd (ustr (str_nat n)) \<noteq> 48"
proof (induction n rule: str_nat.induct)
  case (1 n)
  show ?case
  proof (cases "n < 10")
    case True
    thus ?thesis using 1(2) by (simp add: ustr_str_nat_small)
  next
    case False
    hence "0 < n div 10" by simp
    from 1(1)[OF False this] show ?thesis
      using False by (simp add: ustr_str_nat_big str_nat_nonempty)
  qed
qed

lemma str_nat_value: "foldl (\<lambda>a c. 10 * a + (c - 48)) 0 (ustr (str_nat n)) = n"
proof (induction n rule: str_nat.induct)
  case (1 n)
  show ?case
  proof (cases "n < 10")
    case True
    thus ?thesis by (simp add: ustr_str_nat_small)
  next
    case False
    thus ?thesis using 1 by (simp add: ustr_str_nat_big)
  qed
qed

lemma follows_no_digit: "follows rest \<Longrightarrow> takeWhile is_digit rest = [] \<and> dropWhile is_digit rest = rest"
  by (cases rest) (auto simp: follows_def is_digit_def)

lemma follows_no_frac: "follows rest \<Longrightarrow> match_frac rest = ([], rest)"
  by (cases rest) (auto simp: follows_def match_frac_def split: list.splits)

lemma follows_no_exp: "follows rest \<Longrightarrow> match_exp rest = ([], rest)"
  by (cases rest) (auto simp: follows_def match_exp_def)

lemma match_digits:
  assumes "follows rest"
  shows "match_int (ustr (str_nat n) @ rest) = Some (ustr (str_nat n), rest)"
proof (cases "n = 0")
  case True
  thus ?thesis by (simp add: ustr_str_nat_small match_int_def)
next
  case False
  obtain d ds where e: "ustr (str_nat n) = d # ds"
    using str_nat_nonempty[of n] by (cases "ustr (str_nat n)") auto
  have d: "is_digit d" "\<forall>c \<in> set ds. is_digit c" using str_nat_digits[of n] e by simp_all
  have z: "d \<noteq> 48" using str_nat_head[of n] False e by simp
  have m: "d \<noteq> 0x2D" using d(1) by (simp add: is_digit_def)
  have t: "takeWhile is_digit (ds @ rest) = ds" "dropWhile is_digit (ds @ rest) = rest"
    using d(2) follows_no_digit[OF assms] by (simp_all add: takeWhile_append2 dropWhile_append2)
  show ?thesis unfolding e using d(1) z m t by (simp add: match_int_def)
qed

lemma match_negative:
  assumes "follows rest" and "0 < n"
  shows "match_int (0x2D # ustr (str_nat n) @ rest) = Some (0x2D # ustr (str_nat n), rest)"
proof -
  obtain d ds where e: "ustr (str_nat n) = d # ds"
    using str_nat_nonempty[of n] by (cases "ustr (str_nat n)") auto
  have d: "is_digit d" "\<forall>c \<in> set ds. is_digit c" using str_nat_digits[of n] e by simp_all
  have z: "d \<noteq> 48" using str_nat_head[of n] assms(2) e by simp
  have t: "takeWhile is_digit (ds @ rest) = ds" "dropWhile is_digit (ds @ rest) = rest"
    using d(2) follows_no_digit[OF assms(1)] by (simp_all add: takeWhile_append2 dropWhile_append2)
  show ?thesis unfolding e using d(1) z t by (simp add: match_int_def)
qed

lemma ustr_str_int:
  "ustr (str_int i) = (if i < 0 then 0x2D # ustr (str_nat (nat (- i))) else ustr (str_nat (nat i)))"
  by (simp add: str_int_def ustr_def)

lemma match_number_int:
  assumes "follows rest"
  shows "match_number (ustr (str_int i) @ rest) = Some (JInt i, rest)"
proof (cases "i < 0")
  case True
  hence p: "0 < nat (- i)" by simp
  have v: "int_of_literal (0x2D # ustr (str_nat (nat (- i)))) = i"
    using True by (simp add: int_of_literal_def int_of_digits_def str_nat_value)
  show ?thesis
    using True match_negative[OF assms p] v
    by (simp add: ustr_str_int match_number_def follows_no_frac[OF assms] follows_no_exp[OF assms])
next
  case False
  obtain d ds where e: "ustr (str_nat (nat i)) = d # ds"
    using str_nat_nonempty[of "nat i"] by (cases "ustr (str_nat (nat i))") auto
  have "is_digit d" using str_nat_digits[of "nat i"] e by simp
  hence "d \<noteq> 0x2D" by (simp add: is_digit_def)
  hence v: "int_of_literal (ustr (str_nat (nat i))) = i"
    using False str_nat_value[of "nat i"] unfolding e
    by (simp add: int_of_literal_def int_of_digits_def)
  show ?thesis
    using False match_digits[OF assms, of "nat i"] v
    by (simp add: ustr_str_int match_number_def follows_no_frac[OF assms] follows_no_exp[OF assms])
qed

lemma str_int_head:
  "\<exists>c cs. ustr (str_int i) = c # cs \<and> (is_digit c \<or> c = 0x2D)"
proof (cases "i < 0")
  case True
  thus ?thesis by (simp add: ustr_str_int)
next
  case False
  obtain d ds where e: "ustr (str_nat (nat i)) = d # ds"
    using str_nat_nonempty[of "nat i"] by (cases "ustr (str_nat (nat i))") auto
  have "is_digit d" using str_nat_digits[of "nat i"] e by simp
  thus ?thesis using False e by (simp add: ustr_str_int)
qed

lemma scan_once_int:
  assumes "follows rest"
  shows "scan_once (Suc n) (ustr (str_int i) @ rest) = Some (JInt i, rest)"
proof -
  obtain c cs where e: "ustr (str_int i) = c # cs" and c: "is_digit c \<or> c = 0x2D"
    using str_int_head by blast
  have n: "c \<noteq> 0x22" "c \<noteq> 0x7B" "c \<noteq> 0x5B" "c \<noteq> 110" "c \<noteq> 116" "c \<noteq> 102"
    using c by (auto simp: is_digit_def)
  have s: "\<not> starts_with ''null'' (c # cs @ rest)" "\<not> starts_with ''true'' (c # cs @ rest)"
    "\<not> starts_with ''false'' (c # cs @ rest)"
    using n by (simp_all add: starts_with_def ustr_def)
  have m: "match_number (c # cs @ rest) = Some (JInt i, rest)"
    using match_number_int[OF assms, of i] e by simp
  show ?thesis unfolding e using n s m by simp
qed

lemma scan_once_consts:
  "scan_once (Suc n) (ustr ''null'' @ rest) = Some (JNull, rest)"
  "scan_once (Suc n) (ustr ''true'' @ rest) = Some (JBool True, rest)"
  "scan_once (Suc n) (ustr ''false'' @ rest) = Some (JBool False, rest)"
  by (simp_all add: ustr_def starts_with_def)

subsection \<open>Two examples of the output of the encoder\<close>

lemma replicate_4_8:
  "replicate 4 x = [x, x, x, x]" "replicate 8 x = [x, x, x, x, x, x, x, x]"
  by (simp_all add: numeral_eq_Suc)

lemma json_dumps_example:
  \<open>json_dumps floatstr
     (JDict [(ustr ''a'', JList [JInt 12, JStr (ustr ''x'')]), (ustr ''b'', JList [])]) =
   ustr ''{\<newline>    "a": [\<newline>        12,\<newline>        "x"\<newline>    ],\<newline>    "b": []\<newline>}''\<close>
  by (simp add: json_dumps_def newline_indent_def encode_basestring_ascii_def escape_char_def
      ustr_def str_int_def str_nat.simps replicate_4_8)

lemma escape_example:
  "encode_basestring_ascii [0x78, 0x22, 0x0A, 0xE9, 0x1F600] =
     ustr ''\"x'' @ [0x5C] @ ustr ''\"'' @ [0x5C] @ ustr ''n'' @ [0x5C] @ ustr ''u00e9''
       @ [0x5C] @ ustr ''ud83d'' @ [0x5C] @ ustr ''ude00\"''"
  by (simp add: encode_basestring_ascii_def escape_char_def u_escape_def hex_digit_def ustr_def
      Let_def)

subsection \<open>Lists and dicts\<close>

lemma skip_ws_indent: "\<not> is_ws c \<Longrightarrow> skip_ws (newline_indent l @ c # t) = c # t"
proof -
  have "\<forall>x \<in> set (newline_indent l). is_ws x" by (simp add: newline_indent_def is_ws_def)
  thus "\<not> is_ws c \<Longrightarrow> skip_ws (newline_indent l @ c # t) = c # t"
    by (simp add: skip_ws_def dropWhile_append2)
qed

lemma skip_ws_id: "\<not> is_ws c \<Longrightarrow> skip_ws (c # t) = c # t"
  by (simp add: skip_ws_def)

lemma follows_indent: "follows (newline_indent l @ t)"
  by (simp add: follows_def newline_indent_def)

lemma follows_comma: "follows (0x2C # t)"
  by (simp add: follows_def)

lemma encode_head:
  "wf_json v \<Longrightarrow> \<exists>c cs. encode fs l v = c # cs \<and> value_start c"
proof (cases v)
  case (JInt i)
  obtain c cs where "ustr (str_int i) = c # cs" "is_digit c \<or> c = 0x2D"
    using str_int_head by blast
  thus ?thesis using JInt by (auto simp: value_start_def is_ws_def is_digit_def)
next
  case (JList xs)
  thus ?thesis by (cases xs) (simp_all add: value_start_def is_ws_def ustr_def)
next
  case (JDict ps)
  thus ?thesis by (cases ps) (simp_all add: value_start_def is_ws_def ustr_def)
qed (simp_all add: value_start_def is_ws_def ustr_def encode_basestring_ascii_def)

lemma encode_list_head:
  "wf_json x \<Longrightarrow> \<exists>c cs. encode_list fs l x xs = c # cs \<and> value_start c"
  using encode_head[of x fs l] by (cases xs) auto

lemma encode_dict_head:
  "\<exists>cs. encode_dict fs l p ps = 0x22 # cs"
  by (cases p, cases ps) (simp_all add: encode_basestring_ascii_def)


text \<open>
  The decoder reads back what the encoder printed, at every nesting level and with any
  bound that is at least the length of the printed text: a value, the items of a list
  up to its closing bracket, and the pairs of a dict up to its closing brace.
\<close>

lemma parse_printed:
  "wf_json v \<Longrightarrow> length (encode fs l v) \<le> n \<Longrightarrow> follows rest \<Longrightarrow>
     scan_once n (encode fs l v @ rest) = Some (v, rest)"
  "wf_json x \<Longrightarrow> wf_jsons xs \<Longrightarrow> length (encode_list fs l x xs) < n \<Longrightarrow>
     parse_array n (encode_list fs l x xs @ newline_indent l' @ 0x5D # rest) = Some (x # xs, rest)"
  "wf_str (fst p) \<Longrightarrow> wf_json (snd p) \<Longrightarrow> wf_pairs ps \<Longrightarrow>
     length (encode_dict fs l p ps) < n \<Longrightarrow>
     parse_object n (tl (encode_dict fs l p ps) @ newline_indent l' @ 0x7D # rest)
       = Some (p # ps, rest)"
proof (induction fs l v and fs l x xs and fs l p ps
    arbitrary: n rest and n l' rest and n l' rest
    rule: encode_encode_list_encode_dict.induct)
  case (1 fs l)
  then obtain m where "n = Suc m" by (cases n) (auto simp: ustr_def)
  thus ?case by (simp add: scan_once_consts)
next
  case (2 fs l b)
  then obtain m where "n = Suc m" by (cases n) (auto simp: ustr_def split: if_splits)
  thus ?case by (simp add: scan_once_consts)
next
  case (3 fs l i)
  have "ustr (str_int i) \<noteq> []" using str_int_head[of i] by auto
  then obtain m where "n = Suc m" using 3(2) by (cases n) auto
  thus ?case using 3(3) by (simp add: scan_once_int)
next
  case (4 fs l x)
  thus ?case by simp
next
  case (5 fs l s)
  then obtain m where "n = Suc m" by (cases n) (auto simp: encode_basestring_ascii_def)
  thus ?case using 5(1) by (simp add: scan_once_string)
next
  case (6 fs l)
  then obtain m where "n = Suc m" by (cases n) (auto simp: ustr_def)
  thus ?case by (simp add: ustr_def skip_ws_def is_ws_def)
next
  case (7 fs l x xs)
  obtain m where n: "n = Suc m" using 7(3) by (cases n) auto
  have w: "wf_json x" "wf_jsons xs" using 7(2) by simp_all
  obtain c cs where h: "encode_list fs (Suc l) x xs = c # cs" "value_start c"
    using encode_list_head[OF w(1)] by blast
  have len: "length (encode_list fs (Suc l) x xs) < m" using 7(3) n by (simp add: newline_indent_def)
  have s: "skip_ws (newline_indent (Suc l) @ c # cs @ newline_indent l @ 0x5D # rest)
             = c # cs @ newline_indent l @ 0x5D # rest"
    using h(2) by (simp add: skip_ws_indent value_start_def)
  have "parse_array m (encode_list fs (Suc l) x xs @ newline_indent l @ 0x5D # rest)
          = Some (x # xs, rest)"
    using w len by (rule 7(1))
  thus ?case using n h s by (simp add: value_start_def)
next
  case (8 fs l)
  then obtain m where "n = Suc m" by (cases n) (auto simp: ustr_def)
  thus ?case by (simp add: ustr_def skip_ws_def is_ws_def)
next
  case (9 fs l p ps)
  obtain m where n: "n = Suc m" using 9(3) by (cases n) auto
  have w: "wf_str (fst p)" "wf_json (snd p)" "wf_pairs ps" and d: "distinct (map fst (p # ps))"
    using 9(2) by simp_all
  obtain cs where h: "encode_dict fs (Suc l) p ps = 0x22 # cs"
    using encode_dict_head by blast
  have len: "length (encode_dict fs (Suc l) p ps) < m" using 9(3) n by (simp add: newline_indent_def)
  have s: "skip_ws (newline_indent (Suc l) @ 0x22 # cs @ newline_indent l @ 0x7D # rest)
             = 0x22 # cs @ newline_indent l @ 0x7D # rest"
    by (simp add: skip_ws_indent is_ws_def)
  have "parse_object m (tl (encode_dict fs (Suc l) p ps) @ newline_indent l @ 0x7D # rest)
          = Some (p # ps, rest)"
    using w len by (rule 9(1))
  moreover have "dict_of_pairs (p # ps) = p # ps"
    using foldl_update_distinct[of "[]" "p # ps"] d by (simp add: dict_of_pairs_def)
  ultimately show ?case using n h s by simp
next
  case (10 fs l x)
  obtain m where n: "n = Suc m" using 10(4) by (cases n) auto
  have "scan_once m (encode fs l x @ (newline_indent l' @ 0x5D # rest))
          = Some (x, newline_indent l' @ 0x5D # rest)"
    using 10(2) _ follows_indent by (rule 10(1)) (use 10(4) n in simp)
  moreover have "skip_ws (newline_indent l' @ 0x5D # rest) = 0x5D # rest"
    by (simp add: skip_ws_indent is_ws_def)
  ultimately show ?case using n by simp
next
  case (11 fs l x y ys)
  obtain m where n: "n = Suc m" using 11(5) by (cases n) auto
  let ?tail = "encode_list fs l y ys @ newline_indent l' @ 0x5D # rest"
  have wy: "wf_json y" "wf_jsons ys" using 11(4) by simp_all
  have "scan_once m (encode fs l x @ (0x2C # newline_indent l @ ?tail))
          = Some (x, 0x2C # newline_indent l @ ?tail)"
    using 11(3) _ follows_comma by (rule 11(1)) (use 11(5) n in simp)
  moreover have "skip_ws (0x2C # newline_indent l @ ?tail) = 0x2C # newline_indent l @ ?tail"
    by (simp add: skip_ws_id is_ws_def)
  moreover obtain c cs where h: "encode_list fs l y ys = c # cs" "value_start c"
    using encode_list_head[OF wy(1)] by blast
  hence "skip_ws (newline_indent l @ ?tail) = ?tail"
    by (simp add: skip_ws_indent value_start_def)
  moreover have "parse_array m ?tail = Some (y # ys, rest)"
    using wy by (rule 11(2)) (use 11(5) n in simp)
  ultimately show ?case using n by simp
next
  case (12 fs l k v)
  obtain m where n: "n = Suc m" using 12(5) by (cases n) auto
  let ?close = "newline_indent l' @ 0x7D # rest"
  have t: "tl (encode_dict fs l (k, v) []) @ ?close
             = concat (map escape_char k) @ 0x22 # (0x3A # 0x20 # encode fs l v @ ?close)"
    by (simp add: encode_basestring_ascii_def)
  have k: "scanstring (concat (map escape_char k) @ 0x22 # (0x3A # 0x20 # encode fs l v @ ?close))
           = Some (k, 0x3A # 0x20 # encode fs l v @ ?close)"
    using 12(2) by (simp add: scanstring_escaped)
  obtain c cs where h: "encode fs l v = c # cs" "value_start c"
    using encode_head[of v fs l] 12(3) by auto
  have s1: "skip_ws (0x3A # 0x20 # encode fs l v @ ?close) = 0x3A # 0x20 # encode fs l v @ ?close"
    by (simp add: skip_ws_id is_ws_def)
  have s2: "skip_ws (0x20 # encode fs l v @ ?close) = encode fs l v @ ?close"
    using h by (simp add: skip_ws_def is_ws_def value_start_def)
  have v: "scan_once m (encode fs l v @ ?close) = Some (v, ?close)"
    using _ _ follows_indent by (rule 12(1)) (use 12(3,5) n in simp_all)
  have s3: "skip_ws ?close = 0x7D # rest" by (simp add: skip_ws_indent is_ws_def)
  show ?case unfolding n t by (simp add: k s1 s2 v s3)
next
  case (13 fs l k v q qs)
  obtain m where n: "n = Suc m" using 13(6) by (cases n) auto
  let ?close = "newline_indent l' @ 0x7D # rest"
  let ?next = "encode_dict fs l q qs @ ?close"
  let ?after = "0x2C # newline_indent l @ ?next"
  have t: "tl (encode_dict fs l (k, v) (q # qs)) @ ?close
             = concat (map escape_char k) @ 0x22 # (0x3A # 0x20 # encode fs l v @ ?after)"
    by (simp add: encode_basestring_ascii_def)
  have k: "scanstring (concat (map escape_char k) @ 0x22 # (0x3A # 0x20 # encode fs l v @ ?after))
           = Some (k, 0x3A # 0x20 # encode fs l v @ ?after)"
    using 13(3) by (simp add: scanstring_escaped)
  obtain c cs where h: "encode fs l v = c # cs" "value_start c"
    using encode_head[of v fs l] 13(4) by auto
  have s1: "skip_ws (0x3A # 0x20 # encode fs l v @ ?after) = 0x3A # 0x20 # encode fs l v @ ?after"
    by (simp add: skip_ws_id is_ws_def)
  have s2: "skip_ws (0x20 # encode fs l v @ ?after) = encode fs l v @ ?after"
    using h by (simp add: skip_ws_def is_ws_def value_start_def)
  have v: "scan_once m (encode fs l v @ ?after) = Some (v, ?after)"
    using _ _ follows_comma by (rule 13(1)) (use 13(4,6) n in simp_all)
  have s3: "skip_ws ?after = ?after" by (simp add: skip_ws_id is_ws_def)
  obtain ds where d: "encode_dict fs l q qs = 0x22 # ds" using encode_dict_head by blast
  have s4: "skip_ws (newline_indent l @ ?next) = 0x22 # ds @ ?close"
    using d by (simp add: skip_ws_indent is_ws_def)
  have wq: "wf_str (fst q)" "wf_json (snd q)" "wf_pairs qs" using 13(5) by simp_all
  have r: "parse_object m (tl (encode_dict fs l q qs) @ ?close) = Some (q # qs, rest)"
    using wq by (rule 13(2)) (use 13(6) n in simp)
  hence r': "parse_object m (ds @ ?close) = Some (q # qs, rest)" using d by simp
  show ?case unfolding n t by (simp add: k s1 s2 v s3 s4 r')
qed

text \<open>
  Claim C9. For every well-formed report (strings of code points, lists and dicts with
  distinct keys, also \<open>None\<close>, booleans and integers, but no float),
  \<open>json.loads(json.dumps(report, indent=4))\<close> succeeds and gives the report back.
\<close>

theorem structured_data_round_trip:
  assumes "wf_json report"
  shows "json_loads (json_dumps floatstr report) = Some report"
proof -
  obtain c cs where h: "encode floatstr 0 report = c # cs" "value_start c"
    using encode_head[OF assms] by blast
  have b: "take 1 (encode floatstr 0 report) \<noteq> [0xFEFF]"
    using h by (simp add: value_start_def)
  have s: "skip_ws (encode floatstr 0 report) = encode floatstr 0 report"
    using h by (simp add: skip_ws_id value_start_def)
  have "scan_once (2 * length (encode floatstr 0 report) + 2) (encode floatstr 0 report @ [])
          = Some (report, [])"
    using assms by (rule parse_printed(1)) (simp_all add: follows_def)
  thus ?thesis using b s by (simp add: json_loads_def json_dumps_def skip_ws_def)
qed

lemma wf_sample: "wf_json sample_report"
  by (simp add: sample_report_def ustr_def is_high_def is_low_def)

text \<open>
  The theorem at a report with one finding, whose strings hold a quote, a dash outside
  ASCII and a code point above \<open>0xffff\<close>.
\<close>

theorem structured_data_round_trip_witness:
  "wf_json sample_report \<and> json_loads (json_dumps id sample_report) = Some sample_report"
  using wf_sample structured_data_round_trip[OF wf_sample, of id] by simp

end
